theory Spec2Isabelle
  imports Complex_Main "HOL-Library.Word" "HOL-Library.Multiset"
begin

unbundle bit_operations_syntax

section \<open>Bulk memory allocator (src/mm/NumaMem.cpp)\<close>

text \<open>
  A pointer is an address; \<open>0\<close> is the null pointer. The C library and libnuma are
  the environment: one function answers an allocation request with the pointer the
  allocator hands back (null when it cannot satisfy the request). A call of this
  file either returns a pointer to its caller or aborts the process.
\<close>

type_synonym ptr = nat

datatype request = Plain nat | Interleaved nat "nat set"

datatype outcome = Returned ptr | Aborted

datatype numa_config = GALOIS_USE_NUMA_OLD | GALOIS_USE_NUMA | NO_NUMA

text \<open>\<^verbatim>\<open>void* largeAlloc(size_t len) { return malloc(len); }\<close>\<close>

definition largeAlloc :: "(request \<Rightarrow> ptr) \<Rightarrow> nat \<Rightarrow> outcome" where
  "largeAlloc alloc len = Returned (alloc (Plain len))"

text \<open>
  The loop \<^verbatim>\<open>for (unsigned y = 0; y < num; ++y) numa_bitmask_setbit(nm, y/4);\<close>
  starting from the empty node mask.
\<close>

fun set_node_bits :: "nat \<Rightarrow> nat \<Rightarrow> nat set \<Rightarrow> nat set" where
  "set_node_bits y 0 nm = nm"
| "set_node_bits y (Suc k) nm = set_node_bits (Suc y) k (insert (y div 4) nm)"

definition nodemask :: "nat \<Rightarrow> nat set" where
  "nodemask num = set_node_bits 0 num {}"

text \<open>The request \<open>largeInterleavedAlloc\<close> makes in each build configuration.\<close>

definition interleaved_request :: "numa_config \<Rightarrow> nat \<Rightarrow> nat \<Rightarrow> request" where
  "interleaved_request cfg activeThreads len =
     (case cfg of
        GALOIS_USE_NUMA_OLD \<Rightarrow> Interleaved len (nodemask activeThreads)
      | GALOIS_USE_NUMA \<Rightarrow> Interleaved len (nodemask activeThreads)
      | NO_NUMA \<Rightarrow> Plain len)"

definition largeInterleavedAlloc ::
  "numa_config \<Rightarrow> (request \<Rightarrow> ptr) \<Rightarrow> nat \<Rightarrow> nat \<Rightarrow> outcome" where
  "largeInterleavedAlloc cfg alloc activeThreads len =
     (let data = alloc (interleaved_request cfg activeThreads len)
      in if data = 0 then Aborted else Returned data)"

section \<open>Property cache key (libtsuba/include/tsuba/PropertyCache.h)\<close>

datatype NodeEdge = kNode | kEdge | kNeitherNodeNorEdge

record PropertyCacheKey =
  node_edge :: NodeEdge
  rdg_dir :: string
  prop_name :: string

type_synonym size_t = "64 word"

text \<open>\<open>operator==\<close>, field by field in the source's order.\<close>

definition key_eq :: "PropertyCacheKey \<Rightarrow> PropertyCacheKey \<Rightarrow> bool" where
  "key_eq k o' = (node_edge k = node_edge o' \<and> rdg_dir k = rdg_dir o' \<and>
                  prop_name k = prop_name o')"

text \<open>
  \<open>PropertyCacheKey::Hash\<close>. Boost's \<open>hash_combine\<close> and \<open>hash_value\<close> are library
  functions: they are parameters (\<open>hash_combine seed h\<close> is the new seed).
\<close>

definition Hash ::
  "(size_t \<Rightarrow> size_t \<Rightarrow> size_t) \<Rightarrow> (NodeEdge \<Rightarrow> size_t) \<Rightarrow> (string \<Rightarrow> size_t) \<Rightarrow>
   PropertyCacheKey \<Rightarrow> size_t" where
  "Hash hash_combine hash_value_enum hash_value_string k =
     (let seed = 0;
          seed = hash_combine seed (hash_value_enum (node_edge k));
          seed = hash_combine seed (hash_value_string (rdg_dir k));
          seed = hash_combine seed (hash_value_string (prop_name k))
      in seed)"

text \<open>The seed mixing of Boost 1.x, used to run \<open>Hash\<close> on concrete keys.\<close>

definition boost_hash_combine :: "size_t \<Rightarrow> size_t \<Rightarrow> size_t" where
  "boost_hash_combine seed h =
     seed XOR (h + 0x9e3779b9 + push_bit 6 seed + drop_bit 2 seed)"

section \<open>Block decomposition of \<open>ParallelSTL::partial_sum\<close>\<close>

text \<open>
  \<^verbatim>\<open>blockSize = (sizeOfVector + numBlocks - 1) / numBlocks\<close>,
  \<^verbatim>\<open>blockStart = std::min(block * blockSize, sizeOfVector)\<close>,
  \<^verbatim>\<open>blockEnd = std::min((block + 1) * blockSize, sizeOfVector)\<close>.
  The sizes are \<open>size_t\<close>; none of these expressions wraps for a range that fits in
  memory, so they are natural numbers here.
\<close>

definition blockSize :: "nat \<Rightarrow> nat \<Rightarrow> nat" where
  "blockSize sizeOfVector numBlocks = (sizeOfVector + numBlocks - 1) div numBlocks"

definition blockStart :: "nat \<Rightarrow> nat \<Rightarrow> nat \<Rightarrow> nat" where
  "blockStart sizeOfVector bsz block = min (block * bsz) sizeOfVector"

definition blockEnd :: "nat \<Rightarrow> nat \<Rightarrow> nat \<Rightarrow> nat" where
  "blockEnd sizeOfVector bsz block = min ((block + 1) * bsz) sizeOfVector"

section \<open>Reductions and parallel loops (runtime used by \<open>ParallelSTL.h\<close>)\<close>

text \<open>
  Modelled from the spec: \<open>PerThreadStorage\<close> and \<open>Reducible\<close> (\<open>katana/Reduction.h\<close> is
  not among the sources). A per-thread storage owns one slot per worker, indexed by
  WorkerId. A Reducible initialises every slot with the identity, \<open>update\<close> merges a
  value into the calling worker's slot, and \<open>reduce\<close> folds the slots left to right in
  WorkerId order with the merge function.
\<close>

type_synonym 'a PerThreadStorage = "'a list"

definition make_reducible :: "nat \<Rightarrow> 'a \<Rightarrow> 'a PerThreadStorage" where
  "make_reducible activeThreads identity = replicate activeThreads identity"

definition update ::
  "('a \<Rightarrow> 'a \<Rightarrow> 'a) \<Rightarrow> nat \<Rightarrow> 'a \<Rightarrow> 'a PerThreadStorage \<Rightarrow> 'a PerThreadStorage" where
  "update merge tid v slots = slots[tid := merge (slots ! tid) v]"

definition reduce :: "('a \<Rightarrow> 'a \<Rightarrow> 'a) \<Rightarrow> 'a \<Rightarrow> 'a PerThreadStorage \<Rightarrow> 'a" where
  "reduce merge identity slots = foldl merge identity slots"

text \<open>
  Modelled from the spec: \<open>do_all\<close> (\<open>katana/LoopsDecl.h\<close> is not among the sources). A
  parallel loop runs its body once per item. The bodies of the loops below do not
  interfere in the middle of a call (a body works on the calling worker's slot or on a
  block of its own), so an execution is the list of the calls \<open>(WorkerId, item)\<close> in
  the order in which they happened. An execution of \<open>do_all\<close> over \<open>n\<close> items is valid
  when every WorkerId is below the number of active threads and every index below \<open>n\<close>
  occurs exactly once; which worker runs which item, and when, is left open.
\<close>

definition do_all :: "(nat \<times> 'i) list \<Rightarrow> (nat \<Rightarrow> 'i \<Rightarrow> 's \<Rightarrow> 's) \<Rightarrow> 's \<Rightarrow> 's" where
  "do_all sched body s = fold (\<lambda>(tid, item). body tid item) sched s"

definition valid_do_all :: "nat \<Rightarrow> nat \<Rightarrow> (nat \<times> nat) list \<Rightarrow> bool" where
  "valid_do_all activeThreads n sched =
     ((\<forall>e \<in> set sched. fst e < activeThreads) \<and> mset (map snd sched) = mset [0..<n])"

text \<open>The values one worker merged into its slot, in the order it did.\<close>

definition contributed :: "nat \<Rightarrow> (nat \<times> 'a) list \<Rightarrow> 'a list" where
  "contributed tid events = map snd (filter (\<lambda>e. fst e = tid) events)"

text \<open>What the spec requires of a merge function and its identity.\<close>

definition monoid_on :: "('a \<Rightarrow> 'a \<Rightarrow> 'a) \<Rightarrow> 'a \<Rightarrow> bool" where
  "monoid_on merge identity =
     ((\<forall>a b c. merge (merge a b) c = merge a (merge b c)) \<and>
      (\<forall>a. merge identity a = a \<and> merge a identity = a))"

text \<open>\<open>ParallelSTL::accumulate\<close>: every item is merged into the Reducible, then reduced.\<close>

definition accumulate ::
  "nat \<Rightarrow> (nat \<times> nat) list \<Rightarrow> 'a list \<Rightarrow> 'a \<Rightarrow> ('a \<Rightarrow> 'a \<Rightarrow> 'a) \<Rightarrow> 'a" where
  "accumulate activeThreads sched xs identity binary_op =
     (let r = make_reducible activeThreads identity;
          r = do_all sched (\<lambda>tid i. update binary_op tid (xs ! i)) r
      in reduce binary_op identity r)"

text \<open>
  \<open>test_accum\<close> of \<open>test/reduction.cpp\<close>: a \<open>GAccumulator<int>\<close> (a Reducible with \<open>+\<close> and
  \<open>0\<close>, on 32-bit integers) to which every iteration adds \<open>1\<close>.
\<close>

definition test_accum :: "nat \<Rightarrow> (nat \<times> nat) list \<Rightarrow> 32 word" where
  "test_accum activeThreads sched =
     (let accum = make_reducible activeThreads 0;
          accum = do_all sched (\<lambda>tid i. update (+) tid 1) accum
      in reduce (+) 0 accum)"

text \<open>\<open>ParallelSTL::count_if\<close>, with its \<open>GAccumulator<size_t>\<close>.\<close>

definition count_if :: "nat \<Rightarrow> (nat \<times> nat) list \<Rightarrow> 'a list \<Rightarrow> ('a \<Rightarrow> bool) \<Rightarrow> size_t" where
  "count_if activeThreads sched xs pred =
     (let count = make_reducible activeThreads 0;
          count = do_all sched (\<lambda>tid i c. if pred (xs ! i) then update (+) tid 1 c else c) count
      in reduce (+) 0 count)"

section \<open>\<open>ParallelSTL::find_if\<close>\<close>

text \<open>
  Modelled from the spec: \<open>for_each\<close> with \<open>parallel_break\<close> and \<open>no_pushes\<close>
  (\<open>katana/LoopsDecl.h\<close> and the worklists are not among the sources). Every item of the
  range is seeded once; an execution lists the pops \<open>(WorkerId, item, observes)\<close> in the
  order in which they happen, where \<open>observes\<close> tells whether the worker looks at the
  break flag before this pop. A worker that sees the flag set does not run the item;
  a worker that does not look (its body is in flight) runs it. The body returns the
  new state and whether it called \<open>ctx.breakLoop()\<close>. The loop returns the state, the
  break flag and the items whose body ran.
\<close>

type_synonym 'i pop = "nat \<times> 'i \<times> bool"

definition for_each_step ::
  "(nat \<Rightarrow> 'i \<Rightarrow> 's \<Rightarrow> 's \<times> bool) \<Rightarrow> 'i pop \<Rightarrow> 's \<times> bool \<times> 'i list \<Rightarrow> 's \<times> bool \<times> 'i list" where
  "for_each_step body = (\<lambda>(tid, item, observes) (s, brk, visited).
     if brk \<and> observes then (s, brk, visited)
     else (let (s', breakLoop) = body tid item s
           in (s', brk \<or> breakLoop, visited @ [item])))"

definition for_each ::
  "'i pop list \<Rightarrow> (nat \<Rightarrow> 'i \<Rightarrow> 's \<Rightarrow> 's \<times> bool) \<Rightarrow> 's \<Rightarrow> 's \<times> bool \<times> 'i list" where
  "for_each sched body s = fold (for_each_step body) sched (s, False, [])"

definition valid_for_each :: "nat \<Rightarrow> nat \<Rightarrow> nat pop list \<Rightarrow> bool" where
  "valid_for_each activeThreads n sched =
     ((\<forall>e \<in> set sched. fst e < activeThreads) \<and>
      mset (map (\<lambda>e. fst (snd e)) sched) = mset [0..<n])"

text \<open>
  \<open>find_if_helper::operator()\<close>. The items are the iterators of the range (not
  dereferenced by the loop): positions \<open>0 .. length xs\<close> in \<open>xs\<close>, \<open>length xs\<close> being \<open>last\<close>.
\<close>

definition find_if_helper ::
  "('a \<Rightarrow> bool) \<Rightarrow> 'a list \<Rightarrow> nat \<Rightarrow> nat \<Rightarrow> nat option list \<Rightarrow> nat option list \<times> bool" where
  "find_if_helper f xs tid v accum =
     (if f (xs ! v) then (accum[tid := Some v], True) else (accum, False))"

text \<open>
  The scan after the loop:
  \<^verbatim>\<open>for (i = 0; i < accum.size(); ++i) if (*accum.getRemote(i)) return **accum.getRemote(i);\<close>
  \<^verbatim>\<open>return last;\<close>
\<close>

fun first_recorded :: "nat option list \<Rightarrow> nat \<Rightarrow> nat" where
  "first_recorded [] last_it = last_it"
| "first_recorded (None # accum) last_it = first_recorded accum last_it"
| "first_recorded (Some v # accum) last_it = v"

text \<open>\<open>find_if\<close>: the parallel loop, then the scan of the per-thread slots.\<close>

definition find_if_loop ::
  "nat \<Rightarrow> nat pop list \<Rightarrow> 'a list \<Rightarrow> ('a \<Rightarrow> bool) \<Rightarrow> nat option list \<times> bool \<times> nat list" where
  "find_if_loop activeThreads sched xs pred =
     for_each sched (find_if_helper pred xs) (replicate activeThreads None)"

definition find_if :: "nat \<Rightarrow> nat pop list \<Rightarrow> 'a list \<Rightarrow> ('a \<Rightarrow> bool) \<Rightarrow> nat" where
  "find_if activeThreads sched xs pred =
     (let (accum, brk, visited) = find_if_loop activeThreads sched xs pred
      in first_recorded accum (length xs))"

text \<open>The invariant of the loop of \<open>find_if\<close>, for the proofs.\<close>

definition find_inv ::
  "nat \<Rightarrow> 'a list \<Rightarrow> ('a \<Rightarrow> bool) \<Rightarrow> nat pop list \<Rightarrow> nat option list \<times> bool \<times> nat list \<Rightarrow> bool" where
  "find_inv T xs pred sched st = (case st of (accum, brk, visited) \<Rightarrow>
     length accum = T \<and>
     (\<forall>j<T. \<forall>v. accum ! j = Some v \<longrightarrow> v < length xs \<and> pred (xs ! v)) \<and>
     (brk \<longleftrightarrow> (\<exists>j<T. accum ! j \<noteq> None)) \<and>
     (\<not> brk \<longrightarrow> visited = map (\<lambda>e. fst (snd e)) sched \<and> (\<forall>i \<in> set visited. \<not> pred (xs ! i))))"

section \<open>\<open>ParallelSTL::partition\<close>: the shared bounds\<close>

text \<open>
  A random access iterator is a position (an integer offset into the sequence); a
  range \<open>RP\<close> is a pair of positions. \<open>partition_helper_state\<close> holds the four shared
  bounds and the \<open>SimpleLock\<close>. The field \<open>unguarded\<close> is not in the source: it records
  that a shared bound was read or written while the lock was not held (\<open>shared\<close> marks
  each statement that touches a shared bound). The predicate is kept outside the record.
\<close>

type_synonym iter = int
type_synonym RP = "iter \<times> iter"

record partition_helper_state =
  first :: iter
  last' :: iter
  rfirst :: iter
  rlast :: iter
  Lock :: bool
  unguarded :: bool

definition BlockSize :: int where
  "BlockSize = 1024"

text \<open>\<^verbatim>\<open>unsigned BS = ...\<close>: the conversion of a \<open>difference_type\<close> to a 32-bit unsigned.\<close>

definition to_unsigned :: "int \<Rightarrow> int" where
  "to_unsigned d = d mod 2 ^ 32"

text \<open>The constructor: \<^verbatim>\<open>first(f), last(l), rfirst(l), rlast(f)\<close>.\<close>

definition init_state :: "iter \<Rightarrow> iter \<Rightarrow> partition_helper_state" where
  "init_state f l =
     \<lparr>first = f, last' = l, rfirst = l, rlast = f, Lock = False, unguarded = False\<rparr>"

text \<open>
  \<open>Lock.lock()\<close> waits while the lock is held: on a held lock the call does not return
  (\<open>None\<close>).
\<close>

definition lock :: "partition_helper_state \<Rightarrow> partition_helper_state option" where
  "lock s = (if Lock s then None else Some (s\<lparr>Lock := True\<rparr>))"

definition unlock :: "partition_helper_state \<Rightarrow> partition_helper_state" where
  "unlock s = s\<lparr>Lock := False\<rparr>"

definition shared :: "partition_helper_state \<Rightarrow> partition_helper_state" where
  "shared s = s\<lparr>unguarded := unguarded s \<or> \<not> Lock s\<rparr>"

definition takeHigh :: "partition_helper_state \<Rightarrow> (RP \<times> partition_helper_state) option" where
  "takeHigh s0 =
     (case lock s0 of
        None \<Rightarrow> None
      | Some s \<Rightarrow>
          (let BS = to_unsigned (min BlockSize (last' s - first s));
               s = shared s;
               s = shared (s\<lparr>last' := last' s - BS\<rparr>);
               rv = last' s;
               s = shared s;
               s = unlock s
           in Some ((rv, rv + BS), s)))"

definition takeLow :: "partition_helper_state \<Rightarrow> (RP \<times> partition_helper_state) option" where
  "takeLow s0 =
     (case lock s0 of
        None \<Rightarrow> None
      | Some s \<Rightarrow>
          (let BS = to_unsigned (min BlockSize (last' s - first s));
               s = shared s;
               rv = first s;
               s = shared s;
               s = shared (s\<lparr>first := first s + BS\<rparr>);
               s = unlock s
           in Some ((rv, rv + BS), s)))"

text \<open>
  One of the two \<open>if\<close> statements of \<open>update\<close>:
  \<^verbatim>\<open>if (r.first != r.second) { rfirst = std::min(rfirst, r.first); rlast = std::max(rlast, r.second); }\<close>
\<close>

definition update_bounds :: "RP \<Rightarrow> partition_helper_state \<Rightarrow> partition_helper_state" where
  "update_bounds r s =
     (if fst r \<noteq> snd r
      then (let s = shared (s\<lparr>rfirst := min (rfirst s) (fst r)\<rparr>);
                s = shared (s\<lparr>rlast := max (rlast s) (snd r)\<rparr>)
            in s)
      else s)"

definition update_state :: "RP \<Rightarrow> RP \<Rightarrow> partition_helper_state \<Rightarrow> partition_helper_state option" where
  "update_state low high s0 =
     (case lock s0 of
        None \<Rightarrow> None
      | Some s \<Rightarrow>
          (let s = update_bounds low s;
               s = update_bounds high s;
               s = unlock s
           in Some s))"

text \<open>
  The mutex serialises the calls of the workers: what the shared state sees is a
  sequence of calls. \<open>run_calls\<close> runs such a sequence and collects the blocks handed out.
\<close>

datatype call = TakeLow | TakeHigh | Update RP RP

fun run_calls :: "call list \<Rightarrow> partition_helper_state \<Rightarrow> (RP list \<times> partition_helper_state) option" where
  "run_calls [] s = Some ([], s)"
| "run_calls (TakeLow # cs) s =
     (case takeLow s of
        None \<Rightarrow> None
      | Some (b, s') \<Rightarrow> (case run_calls cs s' of None \<Rightarrow> None | Some (bs, s'') \<Rightarrow> Some (b # bs, s'')))"
| "run_calls (TakeHigh # cs) s =
     (case takeHigh s of
        None \<Rightarrow> None
      | Some (b, s') \<Rightarrow> (case run_calls cs s' of None \<Rightarrow> None | Some (bs, s'') \<Rightarrow> Some (b # bs, s'')))"
| "run_calls (Update low high # cs) s =
     (case update_state low high s of None \<Rightarrow> None | Some s' \<Rightarrow> run_calls cs s')"

text \<open>The positions of a range, and the invariant of the shared state, for the proofs.\<close>

definition positions :: "RP \<Rightarrow> int set" where
  "positions b = {fst b..<snd b}"

definition state_ok :: "iter \<Rightarrow> iter \<Rightarrow> partition_helper_state \<Rightarrow> bool" where
  "state_ok f l s = (f \<le> first s \<and> first s \<le> last' s \<and> last' s \<le> l \<and>
                     \<not> Lock s \<and> \<not> unguarded s)"

definition disjoint_blocks :: "RP \<Rightarrow> RP \<Rightarrow> bool" where
  "disjoint_blocks b c = (positions b \<inter> positions c = {})"

section \<open>\<open>ParallelSTL::partial_sum\<close>\<close>

type_synonym 'a memory = "nat \<Rightarrow> 'a"

fun partial_sum_loop :: "'a::plus memory \<Rightarrow> nat \<Rightarrow> nat \<Rightarrow> 'a \<Rightarrow> nat \<Rightarrow> 'a memory" where
  "partial_sum_loop mem first_it d_first acc 0 = mem"
| "partial_sum_loop mem first_it d_first acc (Suc n) =
     (let acc = acc + mem (first_it + 1)
      in partial_sum_loop (mem(d_first + 1 := acc)) (first_it + 1) (d_first + 1) acc n)"

definition std_partial_sum :: "'a::plus memory \<Rightarrow> nat \<Rightarrow> nat \<Rightarrow> nat \<Rightarrow> 'a memory \<times> nat" where
  "std_partial_sum mem first_it last_it d_first =
     (if first_it = last_it then (mem, d_first)
      else (let acc = mem first_it;
                mem = mem(d_first := acc)
            in (partial_sum_loop mem first_it d_first acc (last_it - first_it - 1),
                d_first + (last_it - first_it))))"

text \<open>
  \<^verbatim>\<open>std::transform(first, last, first, [&](ValueType& val) { return val + numToAdd; })\<close>
\<close>

definition std_transform_add :: "'a::plus memory \<Rightarrow> nat \<Rightarrow> nat \<Rightarrow> 'a \<Rightarrow> 'a memory" where
  "std_transform_add mem first_it last_it numToAdd =
     fold (\<lambda>p m. m(p := m p + numToAdd)) [first_it..<last_it] mem"

text \<open>
  \<^verbatim>\<open>for (i = 0; i < numBlocks; i++) { bulkPrefix[i] = runningSum; runningSum += localSums[i]; }\<close>
\<close>

fun exclusive_scan :: "'a::plus \<Rightarrow> 'a list \<Rightarrow> 'a list" where
  "exclusive_scan runningSum [] = []"
| "exclusive_scan runningSum (x # localSums) =
     runningSum # exclusive_scan (runningSum + x) localSums"

text \<open>
  The body of the first \<open>do_all\<close>: the partial sums of one block, then
  \<^verbatim>\<open>localSums[block] = *(d_first + blockEnd - 1)\<close>. A block that is not empty reads the
  cell it has just written. An empty block (clamped to the end of the range) reads the
  last cell of the output, which belongs to the last non-empty block; that block may
  be writing the cell at the same moment, and nothing orders the two accesses. The
  value such a read returns is not determined by the program: it is \<open>racy block\<close>, a
  parameter.
\<close>

definition block_sums ::
  "nat \<Rightarrow> nat \<Rightarrow> nat \<Rightarrow> nat \<Rightarrow> (nat \<Rightarrow> 'a) \<Rightarrow> nat \<Rightarrow>
   'a::{plus,zero} memory \<times> 'a list \<Rightarrow> 'a memory \<times> 'a list" where
  "block_sums sizeOfVector bsz first_it d_first racy block = (\<lambda>(mem, localSums).
     (let bStart = blockStart sizeOfVector bsz block;
          bEnd = blockEnd sizeOfVector bsz block;
          mem = fst (std_partial_sum mem (first_it + bStart) (first_it + bEnd) (d_first + bStart))
      in if bEnd > 0
         then (mem, localSums[block :=
                 (if bStart < bEnd then mem (d_first + bEnd - 1) else racy block)])
         else (mem, localSums[block := 0])))"

text \<open>The body of the second \<open>do_all\<close>: add the sum of the earlier blocks to one block.\<close>

definition add_block_prefix ::
  "nat \<Rightarrow> nat \<Rightarrow> nat \<Rightarrow> 'a::plus list \<Rightarrow> nat \<Rightarrow> 'a memory \<Rightarrow> 'a memory" where
  "add_block_prefix sizeOfVector bsz d_first bulkPrefix block mem =
     (let numToAdd = bulkPrefix ! block;
          bStart = blockStart sizeOfVector bsz block;
          bEnd = blockEnd sizeOfVector bsz block
      in std_transform_add mem (d_first + bStart) (d_first + bEnd) numToAdd)"

text \<open>
  \<open>ParallelSTL::partial_sum\<close>. The two executions of \<open>do_all\<close> over the block numbers are
  parameters; the bodies do not use the WorkerId. Apart from the read above, a body
  reads and writes only the cells of its own block, and \<open>do_all\<close> returns after all
  bodies have returned.
\<close>

definition partial_sum ::
  "nat \<Rightarrow> (nat \<times> nat) list \<Rightarrow> (nat \<times> nat) list \<Rightarrow> (nat \<Rightarrow> 'a) \<Rightarrow>
   'a::{plus,zero} memory \<Rightarrow> nat \<Rightarrow> nat \<Rightarrow> nat \<Rightarrow> 'a memory \<times> nat" where
  "partial_sum activeThreads sched1 sched2 racy mem first_it last_it d_first =
     (let sizeOfVector = last_it - first_it
      in if sizeOfVector \<ge> 1024 then
           (let numBlocks = activeThreads;
                bsz = blockSize sizeOfVector numBlocks;
                localSums = replicate numBlocks 0;
                (mem, localSums) =
                   do_all sched1 (\<lambda>tid. block_sums sizeOfVector bsz first_it d_first racy)
                     (mem, localSums);
                bulkPrefix = exclusive_scan 0 localSums;
                mem = do_all sched2 (\<lambda>tid. add_block_prefix sizeOfVector bsz d_first bulkPrefix) mem
            in (mem, d_first + sizeOfVector))
         else std_partial_sum mem first_it last_it d_first)"

text \<open>
  The input and the output may be the same range or disjoint ranges: an input element
  may share its address only with the output element of the same index.
\<close>

definition no_overlap :: "nat \<Rightarrow> nat \<Rightarrow> nat \<Rightarrow> bool" where
  "no_overlap first_it d_first n = (\<forall>i<n. \<forall>j<n. first_it + i = d_first + j \<longrightarrow> i = j)"

text \<open>
  What the serial loop needs: no input element is overwritten before it is read (the
  element of index \<open>i\<close> is read after the outputs of the indices below \<open>i\<close> are written).
\<close>

definition reads_unclobbered :: "nat \<Rightarrow> nat \<Rightarrow> nat \<Rightarrow> bool" where
  "reads_unclobbered first_it d_first n = (\<forall>i<n. \<forall>j<i. first_it + i \<noteq> d_first + j)"

text \<open>
  The memory after the prefix sums of \<open>n\<close> inputs are written at \<open>d_first\<close>; the memory after
  the first pass over the blocks in \<open>P\<close>; the memory after the second pass over the
  blocks in \<open>Q\<close>; and what the first pass leaves in \<open>localSums\<close>. For the proofs.
\<close>

definition prefix_written :: "'a::comm_monoid_add memory \<Rightarrow> nat \<Rightarrow> nat \<Rightarrow> nat \<Rightarrow> 'a memory" where
  "prefix_written mem first_it d_first n =
     (\<lambda>a. if d_first \<le> a \<and> a < d_first + n
          then (\<Sum>j = 0..<Suc (a - d_first). mem (first_it + j)) else mem a)"

definition block_local ::
  "'a::comm_monoid_add memory \<Rightarrow> nat \<Rightarrow> nat \<Rightarrow> nat \<Rightarrow> nat \<Rightarrow> nat set \<Rightarrow> 'a memory" where
  "block_local mem0 first_it d_first N s P =
     (\<lambda>a. if d_first \<le> a \<and> a < d_first + N \<and> (a - d_first) div s \<in> P
          then (\<Sum>j = ((a - d_first) div s) * s..<Suc (a - d_first). mem0 (first_it + j))
          else mem0 a)"

definition sums_ok ::
  "'a::comm_monoid_add memory \<Rightarrow> nat \<Rightarrow> nat \<Rightarrow> nat \<Rightarrow> nat set \<Rightarrow> 'a list \<Rightarrow> bool" where
  "sums_ok mem0 first_it N s P ls =
     (\<forall>b \<in> P. blockStart N s b < blockEnd N s b \<longrightarrow>
        ls ! b = (\<Sum>j = blockStart N s b..<blockEnd N s b. mem0 (first_it + j)))"

definition block_offset ::
  "'a::plus memory \<Rightarrow> nat \<Rightarrow> nat \<Rightarrow> nat \<Rightarrow> 'a list \<Rightarrow> nat set \<Rightarrow> 'a memory" where
  "block_offset mem1 d_first N s bp Q =
     (\<lambda>a. if d_first \<le> a \<and> a < d_first + N \<and> (a - d_first) div s \<in> Q
          then mem1 a + bp ! ((a - d_first) div s) else mem1 a)"

text \<open>
  A value type whose \<open>+\<close> is commutative but not associative: a floating-point format
  for non-negative numbers with a significand of 8 bits, no bound on the exponent, and
  rounding towards zero. \<open>Minifloat n\<close> is the number \<open>n\<close>; \<open>trunc8\<close> rounds a sum to the
  format (it drops the bits below the eight leading ones).
\<close>

function trunc8 :: "nat \<Rightarrow> nat" where
  "trunc8 n = (if n < 256 then n else 2 * trunc8 (n div 2))"
  by pat_completeness auto
termination
  by (relation "measure (\<lambda>n. n)") auto

declare trunc8.simps [simp del]

datatype minifloat = Minifloat nat

instantiation minifloat :: "{zero, plus}"
begin

definition zero_minifloat :: minifloat where
  "zero_minifloat = Minifloat 0"

definition plus_minifloat :: "minifloat \<Rightarrow> minifloat \<Rightarrow> minifloat" where
  "plus_minifloat x y = (case x of Minifloat a \<Rightarrow> case y of Minifloat b \<Rightarrow> Minifloat (trunc8 (a + b)))"

instance ..

end

text \<open>
  Two memories: one of \<open>minifloat\<close> values (256 at address 0, 1 elsewhere) and one of
  naturals (100 at address 513, 1 elsewhere).
\<close>

definition memF :: "minifloat memory" where
  "memF = (\<lambda>a. if a = 0 then Minifloat 256 else Minifloat 1)"

definition memO :: "nat memory" where
  "memO = (\<lambda>a. if a = 513 then 100 else 1)"

section \<open>\<open>ParallelSTL::partition\<close>: the algorithm\<close>

text \<open>
  The sequence is a list and an iterator is an integer position in it. Dereferencing
  a position outside the list, and calling a library algorithm on a range that is not
  valid, is undefined behaviour: an error value. \<open>Blocked\<close> is a call of \<open>lock\<close> on a held
  lock; \<open>Unfinished\<close> is an execution that ends before every worker has returned.
\<close>

datatype error = UndefinedBehaviour | Blocked | Unfinished

text \<open>
  \<open>dual_partition\<close>. Its first inner loop,
  \<^verbatim>\<open>while (first1 != last1 && pred(*first1)) ++first1;\<close>
\<close>

function scan_true :: "('a \<Rightarrow> bool) \<Rightarrow> 'a list \<Rightarrow> iter \<Rightarrow> iter \<Rightarrow> error + iter" where
  "scan_true pred xs first1 last1 =
     (if first1 \<noteq> last1
      then (if 0 \<le> first1 \<and> first1 < int (length xs)
            then (if pred (xs ! nat first1) then scan_true pred xs (first1 + 1) last1
                  else Inr first1)
            else Inl UndefinedBehaviour)
      else Inr first1)"
  by pat_completeness auto
termination
  by (relation "measure (\<lambda>(pred, xs, first1, last1). nat (int (length xs) - first1))") auto

text \<open>
  The second inner loop, \<^verbatim>\<open>while (first3 != last3 && !pred(*first3)) ++first3;\<close>, on the
  reverse iterators \<open>first3 = RI(last2)\<close> and \<open>last3 = RI(first2)\<close>. A reverse iterator is
  kept as its base: it points at the element before its base, and \<open>++\<close> decrements
  the base.
\<close>

function scan_false :: "('a \<Rightarrow> bool) \<Rightarrow> 'a list \<Rightarrow> iter \<Rightarrow> iter \<Rightarrow> error + iter" where
  "scan_false pred xs base3 first2 =
     (if base3 \<noteq> first2
      then (if 0 \<le> base3 - 1 \<and> base3 - 1 < int (length xs)
            then (if \<not> pred (xs ! nat (base3 - 1)) then scan_false pred xs (base3 - 1) first2
                  else Inr base3)
            else Inl UndefinedBehaviour)
      else Inr base3)"
  by pat_completeness auto
termination
  by (relation "measure (\<lambda>(pred, xs, base3, first2). nat base3)") auto

text \<open>Where the scans stop, for the termination of the outer loop.\<close>

declare scan_true.simps [simp del]
declare scan_false.simps [simp del]

lemma scan_true_stops:
  "scan_true pred xs first1 last1 = Inr f \<Longrightarrow> f \<noteq> last1 \<Longrightarrow>
   first1 \<le> f \<and> 0 \<le> f \<and> f < int (length xs)"
proof (induction pred xs first1 last1 rule: scan_true.induct)
  case (1 pred xs first1 last1)
  show ?case
  proof (cases "first1 \<noteq> last1 \<and> 0 \<le> first1 \<and> first1 < int (length xs) \<and> pred (xs ! nat first1)")
    case True
    then have "scan_true pred xs (first1 + 1) last1 = Inr f"
      using "1.prems"(1) by (subst (asm) scan_true.simps) simp
    then have "first1 + 1 \<le> f \<and> 0 \<le> f \<and> f < int (length xs)"
      using "1.IH" True "1.prems"(2) by blast
    then show ?thesis by simp
  next
    case False
    then show ?thesis
      using "1.prems" by (subst (asm) scan_true.simps) (auto split: if_splits)
  qed
qed

lemma scan_false_stops:
  "scan_false pred xs base3 first2 = Inr b \<Longrightarrow> b \<noteq> first2 \<Longrightarrow>
   b \<le> base3 \<and> 0 \<le> b - 1 \<and> b - 1 < int (length xs)"
proof (induction pred xs base3 first2 rule: scan_false.induct)
  case (1 pred xs base3 first2)
  show ?case
  proof (cases "base3 \<noteq> first2 \<and> 0 \<le> base3 - 1 \<and> base3 - 1 < int (length xs) \<and>
                \<not> pred (xs ! nat (base3 - 1))")
    case True
    then have "scan_false pred xs (base3 - 1) first2 = Inr b"
      using "1.prems"(1) by (subst (asm) scan_false.simps) simp
    then have "b \<le> base3 - 1 \<and> 0 \<le> b - 1 \<and> b - 1 < int (length xs)"
      using "1.IH" True "1.prems"(2) by blast
    then show ?thesis by simp
  next
    case False
    then show ?thesis
      using "1.prems" by (subst (asm) scan_false.simps) (auto split: if_splits)
  qed
qed

text \<open>\<^verbatim>\<open>std::swap(*first1++, *first3++)\<close> exchanges the two elements.\<close>

definition swap :: "'a list \<Rightarrow> iter \<Rightarrow> iter \<Rightarrow> 'a list" where
  "swap xs i j = xs[nat i := xs ! nat j, nat j := xs ! nat i]"

text \<open>
  The outer \<^verbatim>\<open>while (true)\<close> loop of \<open>dual_partition\<close>; it returns the sequence,
  \<open>first1\<close> and the base of \<open>first3\<close>.
\<close>

function dual_partition_loop ::
  "('a \<Rightarrow> bool) \<Rightarrow> 'a list \<Rightarrow> iter \<Rightarrow> iter \<Rightarrow> iter \<Rightarrow> iter \<Rightarrow> error + ('a list \<times> iter \<times> iter)" where
  "dual_partition_loop pred xs first1 last1 first2 base3 =
     (case scan_true pred xs first1 last1 of
        Inl e \<Rightarrow> Inl e
      | Inr first1 \<Rightarrow>
          if first1 = last1 then Inr (xs, first1, base3)
          else (case scan_false pred xs base3 first2 of
                  Inl e \<Rightarrow> Inl e
                | Inr base3 \<Rightarrow>
                    if base3 = first2 then Inr (xs, first1, base3)
                    else dual_partition_loop pred (swap xs first1 (base3 - 1))
                           (first1 + 1) last1 first2 (base3 - 1)))"
  by pat_completeness auto
termination
proof (relation "measure (\<lambda>(pred, xs, first1, last1, first2, base3). nat (int (length xs) - first1))")
  show "wf (measure (\<lambda>(pred :: 'a \<Rightarrow> bool, xs :: 'a list, first1 :: iter, last1 :: iter,
                        first2 :: iter, base3 :: iter). nat (int (length xs) - first1)))"
    by simp
next
  fix pred :: "'a \<Rightarrow> bool" and xs :: "'a list" and first1 last1 first2 base3 f b :: iter
  assume "scan_true pred xs first1 last1 = Inr f" and "f \<noteq> last1"
  then have "first1 \<le> f \<and> 0 \<le> f \<and> f < int (length xs)"
    by (rule scan_true_stops)
  then show "((pred, swap xs f (b - 1), f + 1, last1, first2, b - 1),
              (pred, xs, first1, last1, first2, base3))
             \<in> measure (\<lambda>(pred, xs, first1, last1, first2, base3). nat (int (length xs) - first1))"
    by (simp add: swap_def)
qed

declare dual_partition_loop.simps [simp del]

definition dual_partition ::
  "'a list \<Rightarrow> iter \<Rightarrow> iter \<Rightarrow> iter \<Rightarrow> iter \<Rightarrow> ('a \<Rightarrow> bool) \<Rightarrow> error + ('a list \<times> RP)" where
  "dual_partition xs first1 last1 first2 last2 pred =
     (case dual_partition_loop pred xs first1 last1 first2 last2 of
        Inl e \<Rightarrow> Inl e
      | Inr (xs, first1, base3) \<Rightarrow> Inr (xs, (first1, base3)))"


text \<open>
  \<open>partition_helper::operator()\<close>, one call per worker. The workers run concurrently:
  a worker is at one of the places of its loop, and a step takes it to the next place.
  \<open>dual_partition\<close> works on blocks that no other worker holds, and \<open>takeLow\<close>, \<open>takeHigh\<close>
  and \<open>update\<close> run under the lock, so each of them is one step. The two ranges of a
  worker start out value-initialised (equal iterators, an empty range).
\<close>

datatype pc = AtDualPartition | AtTakeLow | AtTakeHigh | AtUpdate | Finished

record worker =
  w_low :: RP
  w_high :: RP
  w_pc :: pc

type_synonym 'a config = "'a list \<times> partition_helper_state \<times> worker list"

definition worker_step :: "('a \<Rightarrow> bool) \<Rightarrow> nat \<Rightarrow> 'a config \<Rightarrow> error + 'a config" where
  "worker_step pred tid = (\<lambda>(xs, s, ws).
     if tid < length ws then
       (let w = ws ! tid in
        case w_pc w of
          AtDualPartition \<Rightarrow>
            (case dual_partition xs (fst (w_low w)) (snd (w_low w))
                    (fst (w_high w)) (snd (w_high w)) pred of
               Inl e \<Rightarrow> Inl e
             | Inr (xs, parts) \<Rightarrow>
                 Inr (xs, s, ws[tid := w\<lparr>w_low := (fst parts, snd (w_low w)),
                                         w_high := (fst (w_high w), snd parts),
                                         w_pc := AtTakeLow\<rparr>]))
        | AtTakeLow \<Rightarrow>
            if fst (w_low w) = snd (w_low w)
            then (case takeLow s of
                    None \<Rightarrow> Inl Blocked
                  | Some (rp, s) \<Rightarrow> Inr (xs, s, ws[tid := w\<lparr>w_low := rp, w_pc := AtTakeHigh\<rparr>]))
            else Inr (xs, s, ws[tid := w\<lparr>w_pc := AtTakeHigh\<rparr>])
        | AtTakeHigh \<Rightarrow>
            (case (if fst (w_high w) = snd (w_high w)
                   then (case takeHigh s of None \<Rightarrow> None | Some (rp, s) \<Rightarrow> Some (w\<lparr>w_high := rp\<rparr>, s))
                   else Some (w, s)) of
               None \<Rightarrow> Inl Blocked
             | Some (w, s) \<Rightarrow>
                 Inr (xs, s, ws[tid := w\<lparr>w_pc :=
                        (if fst (w_low w) \<noteq> snd (w_low w) \<and> fst (w_high w) \<noteq> snd (w_high w)
                         then AtDualPartition else AtUpdate)\<rparr>]))
        | AtUpdate \<Rightarrow>
            (case update_state (w_low w) (w_high w) s of
               None \<Rightarrow> Inl Blocked
             | Some s \<Rightarrow> Inr (xs, s, ws[tid := w\<lparr>w_pc := Finished\<rparr>]))
        | Finished \<Rightarrow> Inr (xs, s, ws))
     else Inr (xs, s, ws))"

text \<open>
  Modelled from the spec: \<open>on_each\<close> / \<open>RunOnAll\<close> (the thread pool is not among the
  sources) dispatches the function to every worker and returns when all of them have
  returned. An execution is the list of the WorkerIds in the order in which the workers
  take their steps.
\<close>

fun on_each_run :: "('a \<Rightarrow> bool) \<Rightarrow> nat list \<Rightarrow> 'a config \<Rightarrow> error + 'a config" where
  "on_each_run pred [] c = Inr c"
| "on_each_run pred (tid # sched) c =
     (case worker_step pred tid c of Inl e \<Rightarrow> Inl e | Inr c \<Rightarrow> on_each_run pred sched c)"

definition on_each ::
  "('a \<Rightarrow> bool) \<Rightarrow> nat \<Rightarrow> nat list \<Rightarrow> 'a list \<Rightarrow> partition_helper_state \<Rightarrow>
   error + ('a list \<times> partition_helper_state)" where
  "on_each pred activeThreads sched xs s =
     (case on_each_run pred sched
             (xs, s, replicate activeThreads \<lparr>w_low = (0, 0), w_high = (0, 0), w_pc = AtDualPartition\<rparr>) of
        Inl e \<Rightarrow> Inl e
      | Inr (xs, s, ws) \<Rightarrow>
          if list_all (\<lambda>w. w_pc w = Finished) ws then Inr (xs, s) else Inl Unfinished)"

text \<open>
  \<open>std::partition\<close> (the C++ library) requires a valid range; it moves the elements
  that satisfy the predicate in front of the others and returns the first position of
  the second group. The order inside the groups is unspecified; this is one of the
  admissible results.
\<close>

definition std_partition ::
  "'a list \<Rightarrow> iter \<Rightarrow> iter \<Rightarrow> ('a \<Rightarrow> bool) \<Rightarrow> error + ('a list \<times> iter)" where
  "std_partition xs first_it last_it pred =
     (if 0 \<le> first_it \<and> first_it \<le> last_it \<and> last_it \<le> int (length xs)
      then (let mid = take (nat (last_it - first_it)) (drop (nat first_it) xs)
            in Inr (take (nat first_it) xs @ filter pred mid @ filter (\<lambda>x. \<not> pred x) mid @
                      drop (nat last_it) xs,
                    first_it + int (length (filter pred mid))))
      else Inl UndefinedBehaviour)"

text \<open>\<open>ParallelSTL::partition\<close>.\<close>

definition parallel_partition ::
  "nat \<Rightarrow> nat list \<Rightarrow> 'a list \<Rightarrow> iter \<Rightarrow> iter \<Rightarrow> ('a \<Rightarrow> bool) \<Rightarrow> error + ('a list \<times> iter)" where
  "parallel_partition activeThreads sched xs first_it last_it pred =
     (if last_it - first_it \<le> 1024 then std_partition xs first_it last_it pred
      else (let s = init_state first_it last_it
            in case on_each pred activeThreads sched xs s of
                 Inl e \<Rightarrow> Inl e
               | Inr (xs, s) \<Rightarrow>
                   if rfirst s = first_it \<and> rlast s = last_it then Inr (xs, first s)
                   else std_partition xs (rfirst s) (rlast s) pred))"

text \<open>
  Two inputs of \<open>bool\<close> elements, for the predicate that returns the element itself: 1025
  elements for one thread and 4096 elements for two threads.
\<close>

definition xs0 :: "bool list" where
  "xs0 = replicate 1023 True @ [False, True]"

definition xs2 :: "bool list" where
  "xs2 = replicate 1024 False @ replicate 1024 True @ replicate 2048 False"

section \<open>Results: allocator\<close>

lemma set_node_bits_eq:
  "set_node_bits y k nm = nm \<union> (\<lambda>w. w div 4) ` {y..<y + k}"
proof (induction k arbitrary: y nm)
  case 0
  then show ?case by simp
next
  case (Suc k)
  have "{y..<y + Suc k} = insert y {Suc y..<Suc y + k}"
    by auto
  with Suc show ?case by simp
qed

lemma nodemask_eq: "nodemask num = (\<lambda>w. w div 4) ` {0..<num}"
  by (simp add: nodemask_def set_node_bits_eq)

text \<open>
  C4 (code as written). \<open>largeAlloc\<close> hands the allocator's answer to its caller
  unchecked: when the allocator fails, the caller receives the null pointer and the
  process is not aborted.
\<close>

theorem largeAlloc_returns_null:
  "largeAlloc (\<lambda>r. 0) len = Returned 0 \<and> largeAlloc (\<lambda>r. 0) len \<noteq> Aborted"
  by (simp add: largeAlloc_def)

text \<open>
  C5. \<open>largeInterleavedAlloc\<close> asks for memory interleaved over exactly the nodes
  \<open>w div 4\<close> of the active workers \<open>w\<close> when built with NUMA support, asks for plain
  memory otherwise, and in every configuration aborts instead of returning null.
\<close>

theorem largeInterleavedAlloc_spec:
  "(cfg \<noteq> NO_NUMA \<longrightarrow>
      interleaved_request cfg activeThreads len =
        Interleaved len ((\<lambda>w. w div 4) ` {w. w < activeThreads})) \<and>
   (cfg = NO_NUMA \<longrightarrow> interleaved_request cfg activeThreads len = Plain len) \<and>
   largeInterleavedAlloc cfg alloc activeThreads len =
     (if alloc (interleaved_request cfg activeThreads len) = 0 then Aborted
      else Returned (alloc (interleaved_request cfg activeThreads len))) \<and>
   largeInterleavedAlloc cfg alloc activeThreads len \<noteq> Returned 0"
proof -
  have m: "nodemask activeThreads = (\<lambda>w. w div 4) ` {w. w < activeThreads}"
    by (simp add: nodemask_eq atLeast0LessThan lessThan_def)
  show ?thesis
    by (cases cfg) (simp_all add: interleaved_request_def largeInterleavedAlloc_def m Let_def)
qed

theorem largeInterleavedAlloc_spec_witness:
  "interleaved_request GALOIS_USE_NUMA 6 4096 = Interleaved 4096 {0, 1} \<and>
   interleaved_request NO_NUMA 6 4096 = Plain 4096 \<and>
   largeInterleavedAlloc GALOIS_USE_NUMA (\<lambda>r. 0) 6 4096 = Aborted \<and>
   largeInterleavedAlloc NO_NUMA (\<lambda>r. 0) 6 4096 = Aborted \<and>
   largeInterleavedAlloc GALOIS_USE_NUMA (\<lambda>r. 64) 6 4096 = Returned 64"
proof -
  have s: "(\<lambda>w. w div 4) ` {w. w < (6::nat)} = {0, 1}"
  proof -
    have "{w. w < (6::nat)} = {0, 1, 2, 3, 4, 5}" by auto
    then show ?thesis by simp
  qed
  have a: "interleaved_request GALOIS_USE_NUMA 6 4096 = Interleaved 4096 {0, 1}"
    using largeInterleavedAlloc_spec [of GALOIS_USE_NUMA 6 4096 "\<lambda>r. 0"] s by simp
  have b: "interleaved_request NO_NUMA 6 4096 = Plain 4096"
    using largeInterleavedAlloc_spec [of NO_NUMA 6 4096 "\<lambda>r. 0"] by simp
  have c: "largeInterleavedAlloc GALOIS_USE_NUMA (\<lambda>r. 0) 6 4096 = Aborted"
    using largeInterleavedAlloc_spec [of GALOIS_USE_NUMA 6 4096 "\<lambda>r. 0"] by simp
  have d: "largeInterleavedAlloc NO_NUMA (\<lambda>r. 0) 6 4096 = Aborted"
    using largeInterleavedAlloc_spec [of NO_NUMA 6 4096 "\<lambda>r. 0"] by simp
  have e: "largeInterleavedAlloc GALOIS_USE_NUMA (\<lambda>r. 64) 6 4096 = Returned 64"
    using largeInterleavedAlloc_spec [of GALOIS_USE_NUMA 6 4096 "\<lambda>r. 64"] by simp
  from a b c d e show ?thesis by simp
qed

section \<open>Results: property cache key\<close>

text \<open>
  C10. \<open>operator==\<close> holds exactly when all three fields agree (so it is equality of
  keys), it is reflexive, symmetric and transitive, and equal keys have equal hashes.
\<close>

theorem key_eq_equivalence_hash:
  "(key_eq a b \<longleftrightarrow> a = b) \<and>
   key_eq a a \<and>
   (key_eq a b \<longrightarrow> key_eq b a) \<and>
   (key_eq a b \<and> key_eq b c \<longrightarrow> key_eq a c) \<and>
   (key_eq a b \<longrightarrow> Hash hc he hs a = Hash hc he hs b)"
proof -
  have eq: "key_eq x y \<longleftrightarrow> x = y" for x y
    by (cases x, cases y) (auto simp: key_eq_def)
  show ?thesis by (simp add: eq)
qed

theorem key_eq_equivalence_hash_witness:
  "key_eq \<lparr>node_edge = kNode, rdg_dir = ''g'', prop_name = ''rank''\<rparr>
          \<lparr>node_edge = kNode, rdg_dir = ''g'', prop_name = ''rank''\<rparr> \<and>
   \<not> key_eq \<lparr>node_edge = kNode, rdg_dir = ''g'', prop_name = ''rank''\<rparr>
            \<lparr>node_edge = kEdge, rdg_dir = ''g'', prop_name = ''rank''\<rparr> \<and>
   Hash boost_hash_combine (\<lambda>e. 10) (\<lambda>s. of_nat (length s))
        \<lparr>node_edge = kNode, rdg_dir = ''g'', prop_name = ''rank''\<rparr> =
   Hash boost_hash_combine (\<lambda>e. 10) (\<lambda>s. of_nat (length s))
        \<lparr>node_edge = kNode, rdg_dir = ''g'', prop_name = ''rank''\<rparr>"
  using key_eq_equivalence_hash
    [of "\<lparr>node_edge = kNode, rdg_dir = ''g'', prop_name = ''rank''\<rparr>"
        "\<lparr>node_edge = kNode, rdg_dir = ''g'', prop_name = ''rank''\<rparr>"
        "\<lparr>node_edge = kNode, rdg_dir = ''g'', prop_name = ''rank''\<rparr>"
        boost_hash_combine "\<lambda>e. 10" "\<lambda>s. of_nat (length s)"]
    key_eq_equivalence_hash
    [of "\<lparr>node_edge = kNode, rdg_dir = ''g'', prop_name = ''rank''\<rparr>"
        "\<lparr>node_edge = kEdge, rdg_dir = ''g'', prop_name = ''rank''\<rparr>"]
  by simp

section \<open>Results: block decomposition\<close>

lemma blockSize_covers: "0 < T \<Longrightarrow> N \<le> T * blockSize N T"
proof -
  assume T: "0 < T"
  have "N + T - 1 < T * ((N + T - 1) div T) + T"
    using T by (metis add.commute dividend_less_times_div mult.commute)
  then show ?thesis by (simp add: blockSize_def)
qed

lemma blockSize_pos: "0 < T \<Longrightarrow> 0 < N \<Longrightarrow> 0 < blockSize N T"
  using blockSize_covers [of T N] by (cases "blockSize N T") auto

lemma block_unique:
  assumes "0 < T" "i < N"
  shows "\<exists>!b. b < T \<and> blockStart N (blockSize N T) b \<le> i \<and> i < blockEnd N (blockSize N T) b"
proof -
  let ?s = "blockSize N T"
  have pos: "0 < ?s" using assms blockSize_pos by auto
  have cov: "N \<le> T * ?s" using assms blockSize_covers by auto
  let ?b = "i div ?s"
  have lo: "?b * ?s \<le> i" by simp
  have hi: "i < (?b + 1) * ?s" using pos
    by (metis Suc_eq_plus1 dividend_less_div_times mult.commute mult_Suc)
  have "?b * ?s < T * ?s" using lo assms cov by linarith
  then have bT: "?b < T" by simp
  show ?thesis
  proof (rule ex1I [of _ ?b])
    show "?b < T \<and> blockStart N ?s ?b \<le> i \<and> i < blockEnd N ?s ?b"
      using bT lo hi assms unfolding blockStart_def blockEnd_def by linarith
  next
    fix b assume b: "b < T \<and> blockStart N ?s b \<le> i \<and> i < blockEnd N ?s b"
    then have "b * ?s \<le> i" "i < (b + 1) * ?s"
      using assms by (auto simp: blockStart_def blockEnd_def)
    then show "b = ?b" using pos
      by (metis Suc_eq_plus1 div_nat_eqI mult.commute mult_Suc)
  qed
qed

lemma blockSize_least: "0 < T \<Longrightarrow> T * blockSize N T < N + T"
proof -
  assume T: "0 < T"
  have "T * ((N + T - 1) div T) \<le> N + T - 1"
    by (rule times_div_less_eq_dividend)
  also have "\<dots> < N + T" using T by simp
  finally show ?thesis by (simp add: blockSize_def)
qed

lemma blockSize_ceiling:
  assumes T: "0 < T"
  shows "int (blockSize N T) = \<lceil>real N / real T\<rceil>"
proof -
  let ?S = "blockSize N T"
  have a: "real N \<le> real T * real ?S"
    using blockSize_covers [OF T, of N] by (metis of_nat_le_iff of_nat_mult)
  have b: "real T * real ?S < real N + real T"
    using blockSize_least [OF T, of N] by (metis of_nat_less_iff of_nat_mult of_nat_add)
  have Tr: "0 < real T" using T by simp
  have lo: "real N / real T \<le> real ?S"
    using a Tr by (simp add: field_simps)
  have hi: "real ?S - 1 < real N / real T"
    using b Tr by (simp add: field_simps)
  have "\<lceil>real N / real T\<rceil> = int ?S"
    using lo hi by (intro ceiling_unique) simp_all
  then show ?thesis by simp
qed

text \<open>
  C3 (as amended). With \<open>T > 0\<close> blocks, the nominal block size \<open>S = blockSize N T\<close> is
  the ceiling of \<open>N / T\<close>: the integer with \<open>N \<le> T * S < N + T\<close>. Every block is the slice
  \<open>[min (b * S) N, min ((b + 1) * S) N)\<close>: it is never longer than \<open>S\<close>, it has exactly
  \<open>S\<close> items when it is not clamped, consecutive blocks are adjacent, the blocks start
  at \<open>0\<close> and end at \<open>N\<close>, and every index below \<open>N\<close> lies in exactly one block.
\<close>

theorem block_decomposition:
  "0 < T \<Longrightarrow>
   int (blockSize N T) = \<lceil>real N / real T\<rceil> \<and>
   N \<le> T * blockSize N T \<and> T * blockSize N T < N + T \<and>
   (\<forall>b<T. blockStart N (blockSize N T) b = min (b * blockSize N T) N \<and>
          blockEnd N (blockSize N T) b = min ((b + 1) * blockSize N T) N \<and>
          blockStart N (blockSize N T) b \<le> blockEnd N (blockSize N T) b \<and>
          blockEnd N (blockSize N T) b - blockStart N (blockSize N T) b \<le> blockSize N T \<and>
          ((b + 1) * blockSize N T \<le> N \<longrightarrow>
             blockEnd N (blockSize N T) b - blockStart N (blockSize N T) b = blockSize N T)) \<and>
   blockStart N (blockSize N T) 0 = 0 \<and>
   blockEnd N (blockSize N T) (T - 1) = N \<and>
   (\<forall>b. b + 1 < T \<longrightarrow> blockEnd N (blockSize N T) b = blockStart N (blockSize N T) (b + 1)) \<and>
   (\<forall>i<N. \<exists>!b. b < T \<and> blockStart N (blockSize N T) b \<le> i \<and> i < blockEnd N (blockSize N T) b)"
proof -
  assume T: "0 < T"
  let ?s = "blockSize N T"
  have ceil: "int ?s = \<lceil>real N / real T\<rceil>" by (rule blockSize_ceiling [OF T])
  have cov: "N \<le> T * ?s" using T blockSize_covers by auto
  have least: "T * ?s < N + T" by (rule blockSize_least [OF T])
  have a: "\<forall>b<T. blockStart N ?s b = min (b * ?s) N \<and>
          blockEnd N ?s b = min ((b + 1) * ?s) N \<and>
          blockStart N ?s b \<le> blockEnd N ?s b \<and>
          blockEnd N ?s b - blockStart N ?s b \<le> ?s \<and>
          ((b + 1) * ?s \<le> N \<longrightarrow> blockEnd N ?s b - blockStart N ?s b = ?s)"
    by (auto simp: blockStart_def blockEnd_def min_def)
  have b: "blockStart N ?s 0 = 0" by (simp add: blockStart_def)
  have c: "blockEnd N ?s (T - 1) = N" using T cov by (simp add: blockEnd_def)
  have d: "\<forall>b. b + 1 < T \<longrightarrow> blockEnd N ?s b = blockStart N ?s (b + 1)"
    by (simp add: blockStart_def blockEnd_def)
  have e: "\<forall>i<N. \<exists>!b. b < T \<and> blockStart N ?s b \<le> i \<and> i < blockEnd N ?s b"
    using block_unique [OF T] by blast
  from ceil cov least a b c d e show ?thesis by blast
qed

text \<open>
  C3 (as stated) fails: with 1024 items and 48 threads the nominal block size is 22,
  the ceiling of \<open>1024 / 48\<close> (\<open>48 * 21 < 1024 \<le> 48 * 22\<close>); block 46 is not the last block
  and holds 12 items, and block 47 is empty. So blocks other than the last one are
  shorter than the ceiling of \<open>N / T\<close>.
\<close>

theorem block_size_counterexample:
  "(46::nat) + 1 < 48 \<and> blockSize 1024 48 = 22 \<and>
   int (blockSize 1024 48) = \<lceil>real 1024 / real 48\<rceil> \<and>
   (48::nat) * (22 - 1) < 1024 \<and> (1024::nat) \<le> 48 * 22 \<and>
   blockStart 1024 (blockSize 1024 48) 46 = 1012 \<and>
   blockEnd 1024 (blockSize 1024 48) 46 = 1024 \<and>
   blockEnd 1024 (blockSize 1024 48) 46 - blockStart 1024 (blockSize 1024 48) 46 = 12 \<and>
   blockEnd 1024 (blockSize 1024 48) 46 - blockStart 1024 (blockSize 1024 48) 46 \<noteq> blockSize 1024 48 \<and>
   blockStart 1024 (blockSize 1024 48) 47 = blockEnd 1024 (blockSize 1024 48) 47"
proof -
  have "int (blockSize 1024 48) = \<lceil>real 1024 / real 48\<rceil>"
    by (rule blockSize_ceiling) simp
  then show ?thesis
    by (simp add: blockSize_def blockStart_def blockEnd_def)
qed

theorem block_decomposition_witness:
  "(0::nat) < 48 \<and> int (blockSize 1024 48) = \<lceil>real 1024 / real 48\<rceil> \<and>
   1024 \<le> 48 * blockSize 1024 48 \<and> 48 * blockSize 1024 48 < 1024 + 48 \<and>
   blockStart 1024 (blockSize 1024 48) 0 = 0 \<and>
   blockEnd 1024 (blockSize 1024 48) (48 - 1) = 1024 \<and>
   blockEnd 1024 (blockSize 1024 48) 46 - blockStart 1024 (blockSize 1024 48) 46 \<le> blockSize 1024 48 \<and>
   (\<exists>!b. b < 48 \<and> blockStart 1024 (blockSize 1024 48) b \<le> 1020 \<and> 1020 < blockEnd 1024 (blockSize 1024 48) b)"
proof -
  have T: "(0::nat) < 48" by simp
  note th = block_decomposition [OF T, of 1024]
  note rest = th [THEN conjunct2, THEN conjunct2, THEN conjunct2]
  have ce: "int (blockSize 1024 48) = \<lceil>real 1024 / real 48\<rceil>"
    using th [THEN conjunct1] by simp
  have lo: "1024 \<le> 48 * blockSize 1024 48"
    using th [THEN conjunct2, THEN conjunct1] by simp
  have hi: "48 * blockSize 1024 48 < 1024 + 48"
    using th [THEN conjunct2, THEN conjunct2, THEN conjunct1] by simp
  have a: "blockEnd 1024 (blockSize 1024 48) 46 - blockStart 1024 (blockSize 1024 48) 46
             \<le> blockSize 1024 48"
    using rest [THEN conjunct1, rule_format, of 46] by simp
  have b: "blockStart 1024 (blockSize 1024 48) 0 = 0"
    using rest by blast
  have c: "blockEnd 1024 (blockSize 1024 48) (48 - 1) = 1024"
    using rest by blast
  have d: "\<exists>!b. b < 48 \<and> blockStart 1024 (blockSize 1024 48) b \<le> 1020 \<and>
                1020 < blockEnd 1024 (blockSize 1024 48) b"
    using rest [THEN conjunct2, THEN conjunct2, THEN conjunct2, THEN conjunct2, rule_format, of 1020]
    by simp
  from T ce lo hi a b c d show ?thesis by blast
qed

section \<open>Results: reductions\<close>

lemma length_update [simp]: "length (update merge tid v slots) = length slots"
  by (simp add: update_def)

lemma length_do_all_update:
  "length (do_all events (\<lambda>tid v. update merge tid v) slots) = length slots"
  unfolding do_all_def by (induction events arbitrary: slots) (auto)

lemma nth_update:
  "w < length slots \<Longrightarrow>
   update merge tid v slots ! w = (if tid = w then merge (slots ! w) v else slots ! w)"
  by (simp add: update_def)

lemma slot_after_updates:
  "w < length slots \<Longrightarrow>
   do_all events (\<lambda>tid v. update merge tid v) slots ! w =
     foldl merge (slots ! w) (contributed w events)"
  unfolding do_all_def contributed_def
proof (induction events arbitrary: slots)
  case Nil
  then show ?case by simp
next
  case (Cons e events)
  obtain tid v where e: "e = (tid, v)" by (cases e)
  have "fold (\<lambda>(tid, item). update merge tid item) events (update merge tid v slots) ! w =
        foldl merge (update merge tid v slots ! w) (map snd (filter (\<lambda>e. fst e = w) events))"
    using Cons.IH [of "update merge tid v slots"] Cons.prems by simp
  then show ?case using Cons.prems e
    by (auto simp: nth_update)
qed

lemma foldl_monoid:
  assumes "monoid_on merge identity"
  shows "foldl merge a xs = merge a (foldl merge identity xs)"
proof (induction xs arbitrary: a)
  case Nil
  then show ?case using assms by (simp add: monoid_on_def)
next
  case (Cons x xs)
  have "foldl merge (merge a x) xs = merge (merge a x) (foldl merge identity xs)"
    using Cons.IH by blast
  moreover have "foldl merge (merge identity x) xs = merge x (foldl merge identity xs)"
    using Cons.IH [of x] assms by (simp add: monoid_on_def)
  ultimately show ?case using assms by (simp add: monoid_on_def)
qed

lemma foldl_concat_monoid:
  assumes "monoid_on merge identity"
  shows "foldl merge a (map (foldl merge identity) xss) = foldl merge a (concat xss)"
proof (induction xss arbitrary: a)
  case Nil
  then show ?case by simp
next
  case (Cons xs xss)
  have "merge a (foldl merge identity xs) = foldl merge a xs"
    using foldl_monoid [OF assms, of a xs] by simp
  then show ?case using Cons.IH by simp
qed

lemma reduce_do_all_update:
  assumes "monoid_on merge identity"
  shows "reduce merge identity
           (do_all events (\<lambda>tid v. update merge tid v) (make_reducible T identity)) =
         foldl merge identity (concat (map (\<lambda>w. contributed w events) [0..<T]))"
proof -
  let ?r = "do_all events (\<lambda>tid v. update merge tid v) (make_reducible T identity)"
  have len: "length ?r = T"
    by (simp add: length_do_all_update make_reducible_def)
  have "?r = map (\<lambda>w. ?r ! w) [0..<T]"
    using len by (metis map_nth)
  also have "\<dots> = map (\<lambda>w. foldl merge identity (contributed w events)) [0..<T]"
    by (rule map_cong) (simp_all add: slot_after_updates make_reducible_def)
  finally have "?r = map (foldl merge identity) (map (\<lambda>w. contributed w events) [0..<T])"
    by (simp add: comp_def)
  then show ?thesis
    unfolding reduce_def using foldl_concat_monoid [OF assms, of identity] by metis
qed

lemma mset_contributed:
  "mset (concat (map (\<lambda>w. contributed w events) [0..<T])) =
   mset (map snd (filter (\<lambda>e. fst e < T) events))"
proof (induction T)
  case 0
  then show ?case by simp
next
  case (Suc T)
  have "mset (map snd (filter (\<lambda>e. fst e < Suc T) events)) =
        mset (map snd (filter (\<lambda>e. fst e < T) events)) +
        mset (map snd (filter (\<lambda>e. fst e = T) events))"
    by (induction events) (auto)
  with Suc show ?case by (simp add: contributed_def)
qed

lemma mset_contributed_all:
  assumes "\<forall>e \<in> set events. fst e < T"
  shows "mset (concat (map (\<lambda>w. contributed w events) [0..<T])) = mset (map snd events)"
proof -
  have "filter (\<lambda>e. fst e < T) events = events"
    using assms by (simp add: filter_id_conv)
  then show ?thesis by (simp add: mset_contributed)
qed

lemma do_all_map:
  "do_all (map (\<lambda>(tid, i). (tid, f i)) sched) body s = do_all sched (\<lambda>tid i. body tid (f i)) s"
  unfolding do_all_def by (induction sched arbitrary: s) (auto)

text \<open>
  C1. For a merge function that is associative with a neutral identity, and any
  execution in which the workers \<open>0 .. T - 1\<close> call \<open>update\<close>, \<open>reduce\<close> returns the fold
  of the values contributed by worker 0 (in the order it merged them), then those of
  worker 1, and so on: a fold of all the values, each once, that depends on the
  execution only through what each worker contributed. The same holds for
  \<open>accumulate\<close> over the items of a range.
\<close>

theorem reduce_fold_by_worker:
  assumes "monoid_on merge identity"
    and "\<forall>e \<in> set events. fst e < T"
    and "valid_do_all T (length xs) sched"
  shows "reduce merge identity
           (do_all events (\<lambda>tid v. update merge tid v) (make_reducible T identity)) =
         foldl merge identity (concat (map (\<lambda>w. contributed w events) [0..<T])) \<and>
         mset (concat (map (\<lambda>w. contributed w events) [0..<T])) = mset (map snd events) \<and>
         accumulate T sched xs identity merge =
         foldl merge identity
           (concat (map (\<lambda>w. contributed w (map (\<lambda>(tid, i). (tid, xs ! i)) sched)) [0..<T])) \<and>
         mset (concat (map (\<lambda>w. contributed w (map (\<lambda>(tid, i). (tid, xs ! i)) sched)) [0..<T])) =
         mset xs"
proof -
  let ?ev = "map (\<lambda>(tid, i). (tid, xs ! i)) sched"
  have a: "accumulate T sched xs identity merge =
           reduce merge identity (do_all ?ev (\<lambda>tid v. update merge tid v) (make_reducible T identity))"
    by (simp add: accumulate_def do_all_map [where f = "\<lambda>i. xs ! i"])
  have ev: "\<forall>e \<in> set ?ev. fst e < T"
    using assms(3) by (auto simp: valid_do_all_def)
  have "map snd ?ev = map (\<lambda>i. xs ! i) (map snd sched)"
    by (induction sched) auto
  then have "mset (map snd ?ev) = mset (map (\<lambda>i. xs ! i) (map snd sched))"
    by (simp only:)
  also have "\<dots> = image_mset (\<lambda>i. xs ! i) (mset (map snd sched))"
    by (simp only: mset_map)
  also have "\<dots> = image_mset (\<lambda>i. xs ! i) (mset [0..<length xs])"
    using assms(3) by (simp add: valid_do_all_def)
  also have "\<dots> = mset (map (\<lambda>i. xs ! i) [0..<length xs])"
    by (simp only: mset_map)
  also have "\<dots> = mset xs"
    by (simp add: map_nth)
  finally have m: "mset (map snd ?ev) = mset xs" .
  show ?thesis
    using reduce_do_all_update [OF assms(1)] mset_contributed_all [OF assms(2)]
      mset_contributed_all [OF ev] a m by simp
qed


lemma upt_2: "[0..<2] = [0, Suc 0]"
  by (simp add: upt_rec numeral_2_eq_2)

lemma upt_3: "[0..<3] = [0, 1, 2::nat]"
  by code_simp

theorem reduce_fold_by_worker_witness:
  "monoid_on (@) ([]::nat list) \<and>
   valid_do_all 2 (length [[10], [20], [30::nat]]) [(1, 0), (0, 1), (1, 2)] \<and>
   reduce (@) []
     (do_all [(1, [10]), (0, [20]), (1, [30::nat])] (\<lambda>tid v. update (@) tid v) (make_reducible 2 [])) =
     [20, 10, 30] \<and>
   reduce (@) []
     (do_all [(0, [20]), (1, [10]), (1, [30::nat])] (\<lambda>tid v. update (@) tid v) (make_reducible 2 [])) =
     [20, 10, 30] \<and>
   accumulate 2 [(1, 0), (0, 1), (1, 2)] [[10], [20], [30::nat]] [] (@) = [20, 10, 30]"
proof -
  have m: "monoid_on (@) ([]::nat list)"
    by (simp add: monoid_on_def)
  have e1: "\<forall>e \<in> set [(1, [10]), (0, [20]), (1, [30::nat])]. fst e < (2::nat)"
    by simp
  have e2: "\<forall>e \<in> set [(0, [20]), (1, [10]), (1, [30::nat])]. fst e < (2::nat)"
    by simp
  have v: "valid_do_all 2 (length [[10], [20], [30::nat]]) [(1, 0), (0, 1), (1, 2)]"
    by (simp add: valid_do_all_def upt_3 del: mset_upt)
  show ?thesis
    using reduce_fold_by_worker [OF m e1 v] reduce_fold_by_worker [OF m e2 v] m v
    by (simp add: contributed_def upt_2)
qed


lemma foldl_plus_sum_list:
  "foldl (+) a xs = a + sum_list (xs :: 'a::comm_monoid_add list)"
  by (induction xs arbitrary: a) (simp_all add: add.assoc)

lemma monoid_on_plus: "monoid_on (+) (0 :: 'a::comm_monoid_add)"
  by (simp add: monoid_on_def add.assoc)

lemma GAccumulator_reduce:
  assumes "\<forall>e \<in> set events. fst e < T"
  shows "reduce (+) 0 (do_all events (\<lambda>tid v. update (+) tid v) (make_reducible T 0)) =
         sum_list (map snd events :: 'a::comm_monoid_add list)"
proof -
  let ?c = "concat (map (\<lambda>w. contributed w events) [0..<T])"
  have "reduce (+) 0 (do_all events (\<lambda>tid v. update (+) tid v) (make_reducible T 0)) =
        foldl (+) 0 ?c"
    by (rule reduce_do_all_update [OF monoid_on_plus])
  also have "\<dots> = sum_list ?c"
    by (simp add: foldl_plus_sum_list)
  also have "\<dots> = sum_mset (mset ?c)"
    by (simp only: sum_mset_sum_list)
  also have "\<dots> = sum_mset (mset (map snd events))"
    by (simp only: mset_contributed_all [OF assms])
  also have "\<dots> = sum_list (map snd events)"
    by (simp only: sum_mset_sum_list)
  finally show ?thesis .
qed

lemma do_all_filter:
  "do_all sched (\<lambda>tid i c. if P i then f tid i c else c) s =
   do_all (filter (\<lambda>e. P (snd e)) sched) f s"
  unfolding do_all_def by (induction sched arbitrary: s) auto

lemma sum_list_ones: "sum_list (map (\<lambda>e. 1) es) = (of_nat (length es) :: 'a::semiring_1)"
  by (induction es) (simp_all add: add.commute)

lemma valid_do_all_length: "valid_do_all T n sched \<Longrightarrow> length sched = n"
proof -
  assume "valid_do_all T n sched"
  then have "size (mset (map snd sched)) = size (mset [0..<n])"
    by (simp only: valid_do_all_def)
  then show ?thesis by simp
qed

lemma valid_do_all_count:
  assumes "valid_do_all T (length xs) sched"
  shows "length (filter (\<lambda>e. pred (xs ! snd e)) sched) = length (filter pred xs)"
proof -
  have "length (filter (\<lambda>e. pred (xs ! snd e)) sched) =
        length (filter (\<lambda>i. pred (xs ! i)) (map snd sched))"
    by (simp add: filter_map comp_def)
  also have "\<dots> = size (filter_mset (\<lambda>i. pred (xs ! i)) (mset (map snd sched)))"
    by (metis mset_filter size_mset)
  also have "\<dots> = size (filter_mset (\<lambda>i. pred (xs ! i)) (mset [0..<length xs]))"
    using assms by (simp only: valid_do_all_def)
  also have "\<dots> = length (filter (\<lambda>i. pred (xs ! i)) [0..<length xs])"
    by (metis mset_filter size_mset)
  also have "\<dots> = length (map (\<lambda>i. xs ! i) (filter (\<lambda>i. pred (xs ! i)) [0..<length xs]))"
    by simp
  also have "\<dots> = length (filter pred (map (\<lambda>i. xs ! i) [0..<length xs]))"
    by (simp only: filter_map comp_def)
  also have "\<dots> = length (filter pred xs)"
    by (simp only: map_nth)
  finally show ?thesis .
qed

lemma test_accum_eq:
  assumes "valid_do_all T num sched"
  shows "test_accum T sched = of_nat num"
proof -
  let ?ev = "map (\<lambda>(tid, i). (tid, 1 :: 32 word)) sched"
  have ev: "\<forall>e \<in> set ?ev. fst e < T"
    using assms by (auto simp: valid_do_all_def)
  have "test_accum T sched =
        reduce (+) 0 (do_all ?ev (\<lambda>tid v. update (+) tid v) (make_reducible T 0))"
    by (simp add: test_accum_def do_all_map [where f = "\<lambda>i. 1"])
  also have "\<dots> = sum_list (map snd ?ev)"
    by (rule GAccumulator_reduce [OF ev])
  also have "map snd ?ev = map (\<lambda>e. 1) sched"
    by (induction sched) auto
  also have "sum_list (map (\<lambda>e. 1 :: 32 word) sched) = of_nat (length sched)"
    by (rule sum_list_ones)
  finally show ?thesis
    using valid_do_all_length [OF assms] by simp
qed

lemma count_if_eq:
  assumes "valid_do_all T (length xs) sched"
  shows "count_if T sched xs pred = of_nat (length (filter pred xs))"
proof -
  let ?f = "filter (\<lambda>e. pred (xs ! snd e)) sched"
  let ?ev = "map (\<lambda>(tid, i). (tid, 1 :: 64 word)) ?f"
  have ev: "\<forall>e \<in> set ?ev. fst e < T"
    using assms by (auto simp: valid_do_all_def)
  have "count_if T sched xs pred =
        reduce (+) 0 (do_all ?f (\<lambda>tid i. update (+) tid 1) (make_reducible T 0))"
    by (simp add: count_if_def do_all_filter [where P = "\<lambda>i. pred (xs ! i)"])
  also have "\<dots> = reduce (+) 0 (do_all ?ev (\<lambda>tid v. update (+) tid v) (make_reducible T 0))"
    by (simp add: do_all_map [where f = "\<lambda>i. 1"])
  also have "\<dots> = sum_list (map snd ?ev)"
    by (rule GAccumulator_reduce [OF ev])
  also have "map snd ?ev = map (\<lambda>e. 1) ?f"
    by (induction sched) auto
  also have "sum_list (map (\<lambda>e. 1 :: 64 word) ?f) = of_nat (length ?f)"
    by (rule sum_list_ones)
  finally show ?thesis
    using valid_do_all_count [OF assms] by simp
qed

lemma sint_of_nat_small:
  assumes "n < 2 ^ 31"
  shows "sint (of_nat n :: 32 word) = int n"
proof -
  have b: "int n < 2 ^ 31" using assms by (metis of_nat_less_iff of_nat_numeral of_nat_power)
  have "sint (of_nat n :: 32 word) = sint (word_of_int (int n) :: 32 word)"
    by simp
  also have "\<dots> = (int n + 2 ^ 31) mod 2 ^ 32 - 2 ^ 31"
    by (simp only: int_word_sint) simp
  also have "\<dots> = int n"
    using b by (simp add: mod_pos_pos_trivial)
  finally show ?thesis .
qed
lemma unat_of_nat_small: "n < 2 ^ 64 \<Longrightarrow> unat (of_nat n :: 64 word) = n"
  by (simp add: unat_of_nat)

text \<open>
  C7. A \<open>GAccumulator<int>\<close> to which \<open>1\<close> is added once per iteration of a parallel loop
  over \<open>num\<close> iterations reduces to \<open>num\<close> for every number of threads and every
  distribution of the iterations, and \<open>count_if\<close> returns the number of elements that
  satisfy the predicate.
\<close>

theorem GAccumulator_counts:
  assumes "valid_do_all T num sched"
    and "valid_do_all T (length xs) sched'"
  shows "test_accum T sched = of_nat num \<and>
         (num < 2 ^ 31 \<longrightarrow> sint (test_accum T sched) = int num) \<and>
         count_if T sched' xs pred = of_nat (length (filter pred xs)) \<and>
         (length xs < 2 ^ 64 \<longrightarrow> unat (count_if T sched' xs pred) = length (filter pred xs))"
proof -
  have a: "test_accum T sched = of_nat num"
    by (rule test_accum_eq [OF assms(1)])
  have b: "count_if T sched' xs pred = of_nat (length (filter pred xs))"
    by (rule count_if_eq [OF assms(2)])
  have c: "unat (count_if T sched' xs pred) = length (filter pred xs)" if "length xs < 2 ^ 64"
  proof -
    have "length (filter pred xs) \<le> length xs" by simp
    with that have "length (filter pred xs) < 2 ^ 64" by linarith
    then show ?thesis by (simp only: b unat_of_nat_small)
  qed
  show ?thesis using a b c by (simp add: sint_of_nat_small)
qed

lemma valid_do_all_round_robin:
  "0 < T \<Longrightarrow> valid_do_all T n (map (\<lambda>i. (i mod T, i)) [0..<n])"
  by (simp add: valid_do_all_def comp_def)

theorem GAccumulator_counts_witness:
  "valid_do_all 8 123456 (map (\<lambda>i. (i mod 8, i)) [0..<123456]) \<and>
   valid_do_all 8 (length [5, 0, 7::nat]) [(1, 0), (0, 1), (1, 2)] \<and>
   sint (test_accum 8 (map (\<lambda>i. (i mod 8, i)) [0..<123456])) = 123456 \<and>
   unat (count_if 8 [(1, 0), (0, 1), (1, 2)] [5, 0, 7::nat] (\<lambda>x. 0 < x)) = 2"
proof -
  have v1: "valid_do_all 8 123456 (map (\<lambda>i. (i mod 8, i)) [0..<123456])"
    by (rule valid_do_all_round_robin) simp
  have v2: "valid_do_all 8 (length [5, 0, 7::nat]) [(1, 0), (0, 1), (1, 2)]"
    by (simp add: valid_do_all_def upt_3 del: mset_upt)
  show ?thesis
    using GAccumulator_counts [OF v1 v2, of "\<lambda>x. 0 < x"] v1 v2 by simp
qed


section \<open>Results: \<open>find_if\<close>\<close>

lemma for_each_snoc:
  "for_each (sched @ [e]) body s = for_each_step body e (for_each sched body s)"
  by (simp add: for_each_def)

lemma find_inv_step:
  assumes "find_inv T xs pred sched st" and "fst e < T" and "fst (snd e) < length xs"
  shows "find_inv T xs pred (sched @ [e]) (for_each_step (find_if_helper pred xs) e st)"
proof -
  obtain accum brk visited where st: "st = (accum, brk, visited)" by (cases st)
  obtain tid item obs where e: "e = (tid, item, obs)" by (cases e)
  show ?thesis
  proof (cases "brk \<and> obs")
    case True
    then show ?thesis using assms st e
      by (simp add: for_each_step_def find_inv_def)
  next
    case False
    show ?thesis
    proof (cases "pred (xs ! item)")
      case True
      have "for_each_step (find_if_helper pred xs) e st = (accum[tid := Some item], True, visited @ [item])"
        using False True st e by (auto simp: for_each_step_def find_if_helper_def)
      moreover have "find_inv T xs pred (sched @ [e]) (accum[tid := Some item], True, visited @ [item])"
        using assms st e True
        by (auto simp: find_inv_def nth_list_update)
      ultimately show ?thesis by simp
    next
      case nopred: False
      have "for_each_step (find_if_helper pred xs) e st = (accum, brk, visited @ [item])"
        using False nopred st e by (auto simp: for_each_step_def find_if_helper_def)
      moreover have "find_inv T xs pred (sched @ [e]) (accum, brk, visited @ [item])"
        using assms st e nopred
        by (auto simp: find_inv_def)
      ultimately show ?thesis by simp
    qed
  qed
qed

lemma find_inv_loop:
  assumes "\<forall>e \<in> set sched. fst e < T \<and> fst (snd e) < length xs"
  shows "find_inv T xs pred sched (find_if_loop T sched xs pred)"
  using assms
proof (induction sched rule: rev_induct)
  case Nil
  then show ?case by (simp add: find_if_loop_def for_each_def find_inv_def)
next
  case (snoc e sched)
  then have "find_inv T xs pred sched (find_if_loop T sched xs pred)" by simp
  then show ?case
    unfolding find_if_loop_def for_each_snoc
    using snoc.prems by (intro find_inv_step) (auto simp: find_if_loop_def)
qed

lemma first_recorded_none:
  "\<forall>j<length accum. accum ! j = None \<Longrightarrow> first_recorded accum last_it = last_it"
proof (induction accum last_it rule: first_recorded.induct)
  case (1 last_it)
  then show ?case by simp
next
  case (2 accum last_it)
  then have "\<forall>j<length accum. accum ! j = None" by fastforce
  with 2 show ?case by simp
next
  case (3 v accum last_it)
  then have "(Some v # accum) ! 0 = None" by blast
  then show ?case by simp
qed

lemma first_recorded_lowest:
  "j < length accum \<Longrightarrow> accum ! j = Some v \<Longrightarrow> \<forall>k<j. accum ! k = None \<Longrightarrow>
   first_recorded accum last_it = v"
proof (induction accum last_it arbitrary: j rule: first_recorded.induct)
  case (1 last_it)
  then show ?case by simp
next
  case (2 accum last_it)
  then obtain j' where j: "j = Suc j'" by (cases j) auto
  have "\<forall>k<j'. accum ! k = None"
    using 2(4) j by fastforce
  with 2 j show ?case by simp
next
  case (3 w accum last_it)
  then show ?case by (cases j) auto
qed

lemma valid_for_each_items:
  assumes "valid_for_each T n sched"
  shows "\<forall>e \<in> set sched. fst e < T \<and> fst (snd e) < n"
proof
  fix e assume e: "e \<in> set sched"
  have "fst (snd e) \<in> set (map (\<lambda>e. fst (snd e)) sched)" using e by simp
  then have "fst (snd e) \<in># mset (map (\<lambda>e. fst (snd e)) sched)" by (simp only: set_mset_mset)
  then have "fst (snd e) \<in># mset [0..<n]" using assms by (simp only: valid_for_each_def)
  then have "fst (snd e) < n" by simp
  then show "fst e < T \<and> fst (snd e) < n" using assms e by (simp add: valid_for_each_def)
qed


text \<open>
  C2. For every execution of the loop over a finite range, \<open>find_if\<close> returns an
  iterator. When some slot is filled, the result is the element recorded in the filled
  slot of lowest WorkerId, and it lies in the range and satisfies the predicate; when
  some element satisfies the predicate, some slot is filled; when none does, the result
  is \<open>last\<close>, the break flag was never set and the body ran on every item (the loop
  ended by exhaustion).
\<close>

theorem find_if_result:
  assumes "valid_for_each T (length xs) sched"
  shows "(case find_if_loop T sched xs pred of (accum, brk, visited) \<Rightarrow>
           length accum = T \<and>
           (\<forall>j<T. accum ! j \<noteq> None \<and> (\<forall>k<j. accum ! k = None) \<longrightarrow>
                  accum ! j = Some (find_if T sched xs pred)) \<and>
           ((\<exists>j<T. accum ! j \<noteq> None) \<longrightarrow>
              find_if T sched xs pred < length xs \<and> pred (xs ! find_if T sched xs pred)) \<and>
           ((\<exists>i<length xs. pred (xs ! i)) \<longrightarrow> (\<exists>j<T. accum ! j \<noteq> None)) \<and>
           ((\<forall>i<length xs. \<not> pred (xs ! i)) \<longrightarrow>
              find_if T sched xs pred = length xs \<and> \<not> brk \<and>
              mset visited = mset [0..<length xs]))"
proof -
  obtain accum brk visited where l: "find_if_loop T sched xs pred = (accum, brk, visited)"
    by (cases "find_if_loop T sched xs pred")
  have r: "find_if T sched xs pred = first_recorded accum (length xs)"
    by (simp add: find_if_def l)
  have items: "\<forall>e \<in> set sched. fst e < T \<and> fst (snd e) < length xs"
    by (rule valid_for_each_items [OF assms])
  have inv: "find_inv T xs pred sched (accum, brk, visited)"
    using find_inv_loop [OF items, of pred] l by simp
  have len: "length accum = T"
    using inv by (simp add: find_inv_def)
  have sat: "\<forall>j<T. \<forall>v. accum ! j = Some v \<longrightarrow> v < length xs \<and> pred (xs ! v)"
    using inv by (simp add: find_inv_def)
  have brk: "brk \<longleftrightarrow> (\<exists>j<T. accum ! j \<noteq> None)"
    using inv by (simp add: find_inv_def)
  have exh: "visited = map (\<lambda>e. fst (snd e)) sched \<and> (\<forall>i \<in> set visited. \<not> pred (xs ! i))"
    if "\<not> brk"
    using inv that by (simp add: find_inv_def)
  have low: "accum ! j = Some (find_if T sched xs pred)"
    if jT: "j < T" and ne: "accum ! j \<noteq> None" and lo: "\<forall>k<j. accum ! k = None" for j
  proof -
    obtain v where v: "accum ! j = Some v" using ne by auto
    have "first_recorded accum (length xs) = v"
      using first_recorded_lowest [of j accum v "length xs"] jT lo v len by simp
    then show ?thesis using v r by simp
  qed
  have found: "find_if T sched xs pred < length xs \<and> pred (xs ! find_if T sched xs pred)"
    if "\<exists>j<T. accum ! j \<noteq> None"
  proof -
    let ?P = "\<lambda>j. j < T \<and> accum ! j \<noteq> None"
    define j where "j = (LEAST j. ?P j)"
    have Pj: "?P j" unfolding j_def using that by (metis (mono_tags, lifting) LeastI)
    have "\<forall>k<j. accum ! k = None"
    proof (intro allI impI)
      fix k assume k: "k < j"
      then have "\<not> ?P k" unfolding j_def by (rule not_less_Least)
      with k Pj show "accum ! k = None" by auto
    qed
    with Pj have "accum ! j = Some (find_if T sched xs pred)" by (intro low) auto
    with sat Pj show ?thesis by blast
  qed
  have mvis: "mset visited = mset [0..<length xs]" if "\<not> brk"
    using exh [OF that] assms by (simp only: valid_for_each_def)
  have some: "\<exists>j<T. accum ! j \<noteq> None" if "\<exists>i<length xs. pred (xs ! i)"
  proof (rule ccontr)
    assume "\<not> (\<exists>j<T. accum ! j \<noteq> None)"
    then have nb: "\<not> brk" using brk by simp
    from that obtain i where i: "i < length xs" "pred (xs ! i)" by blast
    have "i \<in># mset [0..<length xs]" using i by simp
    then have "i \<in># mset visited" using mvis [OF nb] by simp
    then have "i \<in> set visited" by simp
    with exh [OF nb] i show False by blast
  qed
  have none: "find_if T sched xs pred = length xs \<and> \<not> brk \<and>
              mset visited = mset [0..<length xs]"
    if "\<forall>i<length xs. \<not> pred (xs ! i)"
  proof -
    have "\<forall>j<T. accum ! j = None"
      using sat that by (metis not_Some_eq)
    then have nb: "\<not> brk" using brk by simp
    have "first_recorded accum (length xs) = length xs"
      using \<open>\<forall>j<T. accum ! j = None\<close> len by (intro first_recorded_none) simp
    with nb mvis r show ?thesis by simp
  qed
  show ?thesis
    unfolding l using len low found some none by simp
qed


lemma upt_2_numeral: "[0..<2] = [0, 1::nat]"
  by code_simp

theorem find_if_result_witness:
  "valid_for_each 2 (length [True, True]) [(0, 1, False), (1, 0, False)] \<and>
   find_if_loop 2 [(0, 1, False), (1, 0, False)] [True, True] (\<lambda>x. x) =
     ([Some 1, Some 0], True, [1, 0]) \<and>
   find_if 2 [(0, 1, False), (1, 0, False)] [True, True] (\<lambda>x. x) = 1 \<and>
   valid_for_each 2 (length [False, False]) [(1, 1, False), (0, 0, True)] \<and>
   find_if_loop 2 [(1, 1, False), (0, 0, True)] [False, False] (\<lambda>x. x) =
     ([None, None], False, [1, 0]) \<and>
   find_if 2 [(1, 1, False), (0, 0, True)] [False, False] (\<lambda>x. x) = 2"
proof -
  have v1: "valid_for_each 2 (length [True, True]) [(0, 1, False), (1, 0, False)]"
    by (simp add: valid_for_each_def upt_2_numeral del: mset_upt)
  have v2: "valid_for_each 2 (length [False, False]) [(1, 1, False), (0, 0, True)]"
    by (simp add: valid_for_each_def upt_2_numeral del: mset_upt)
  have l1: "find_if_loop 2 [(0, 1, False), (1, 0, False)] [True, True] (\<lambda>x. x) =
              ([Some 1, Some 0], True, [1, 0])"
    by (simp add: find_if_loop_def for_each_def for_each_step_def find_if_helper_def
        numeral_2_eq_2)
  have l2: "find_if_loop 2 [(1, 1, False), (0, 0, True)] [False, False] (\<lambda>x. x) =
              ([None, None], False, [1, 0])"
    by (simp add: find_if_loop_def for_each_def for_each_step_def find_if_helper_def
        numeral_2_eq_2)
  have r1: "find_if 2 [(0, 1, False), (1, 0, False)] [True, True] (\<lambda>x. x) = 1"
    using find_if_result [OF v1, of "\<lambda>x. x"] unfolding l1
    by (auto simp: numeral_2_eq_2 less_Suc_eq)
  have r2: "find_if 2 [(1, 1, False), (0, 0, True)] [False, False] (\<lambda>x. x) = 2"
    using find_if_result [OF v2, of "\<lambda>x. x"] unfolding l2
    by (auto simp: numeral_2_eq_2 less_Suc_eq)
  from v1 v2 l1 l2 r1 r2 show ?thesis by blast
qed


section \<open>Results: the shared bounds of \<open>partition\<close>\<close>

lemma to_unsigned_BS:
  "0 \<le> d \<Longrightarrow> to_unsigned (min BlockSize d) = min BlockSize d"
  by (simp add: to_unsigned_def BlockSize_def min_def)

lemma takeLow_ok:
  assumes "state_ok f l s"
  shows "\<exists>BS. BS = min BlockSize (last' s - first s) \<and>
           takeLow s = Some ((first s, first s + BS), s\<lparr>first := first s + BS\<rparr>)"
proof -
  have d: "0 \<le> last' s - first s" using assms by (simp add: state_ok_def)
  have "\<not> Lock s" "\<not> unguarded s" using assms by (simp_all add: state_ok_def)
  then show ?thesis
    by (simp add: takeLow_def lock_def unlock_def shared_def Let_def to_unsigned_BS [OF d])
qed

lemma takeHigh_ok:
  assumes "state_ok f l s"
  shows "\<exists>BS. BS = min BlockSize (last' s - first s) \<and>
           takeHigh s = Some ((last' s - BS, last' s), s\<lparr>last' := last' s - BS\<rparr>)"
proof -
  have d: "0 \<le> last' s - first s" using assms by (simp add: state_ok_def)
  have "\<not> Lock s" "\<not> unguarded s" using assms by (simp_all add: state_ok_def)
  then show ?thesis
    by (simp add: takeHigh_def lock_def unlock_def shared_def Let_def to_unsigned_BS [OF d])
qed

lemma update_state_ok:
  assumes "state_ok f l s"
  shows "\<exists>s'. update_state low high s = Some s' \<and> state_ok f l s' \<and>
           first s' = first s \<and> last' s' = last' s"
proof -
  have "\<not> Lock s" "\<not> unguarded s" using assms by (simp_all add: state_ok_def)
  then show ?thesis using assms
    by (simp add: update_state_def update_bounds_def lock_def unlock_def shared_def Let_def
        state_ok_def)
qed


lemma run_calls_ok:
  assumes "state_ok f l s"
  shows "\<exists>blocks s'. run_calls calls s = Some (blocks, s') \<and> state_ok f l s' \<and>
           first s \<le> first s' \<and> last' s' \<le> last' s \<and>
           (\<forall>b \<in> set blocks. first s \<le> fst b \<and> fst b \<le> snd b \<and> snd b \<le> last' s \<and>
                (snd b \<le> first s' \<or> last' s' \<le> fst b)) \<and>
           sorted_wrt disjoint_blocks blocks"
  using assms
proof (induction calls arbitrary: s)
  case Nil
  then show ?case by (simp add: state_ok_def)
next
  case (Cons c calls)
  show ?case
  proof (cases c)
    case TakeLow
    define BS where "BS = min BlockSize (last' s - first s)"
    define s1 where "s1 = s\<lparr>first := first s + BS\<rparr>"
    have t: "takeLow s = Some ((first s, first s + BS), s1)"
      using takeLow_ok [OF Cons.prems] by (simp add: BS_def s1_def)
    have BS: "0 \<le> BS" "BS \<le> last' s - first s"
      using Cons.prems by (simp_all add: BS_def state_ok_def BlockSize_def)
    have ok1: "state_ok f l s1"
      using Cons.prems BS by (simp add: state_ok_def s1_def)
    obtain blocks s' where r: "run_calls calls s1 = Some (blocks, s')" "state_ok f l s'"
      "first s1 \<le> first s'" "last' s' \<le> last' s1"
      "\<forall>b \<in> set blocks. first s1 \<le> fst b \<and> fst b \<le> snd b \<and> snd b \<le> last' s1 \<and>
                (snd b \<le> first s' \<or> last' s' \<le> fst b)"
      "sorted_wrt disjoint_blocks blocks"
      using Cons.IH [OF ok1] by blast
    have f1: "first s1 = first s + BS" "last' s1 = last' s" by (simp_all add: s1_def)
    have d: "\<forall>b \<in> set blocks. disjoint_blocks (first s, first s + BS) b"
      using r(5) f1 by (auto simp: disjoint_blocks_def positions_def)
    have "run_calls (c # calls) s = Some ((first s, first s + BS) # blocks, s')"
      using TakeLow t r(1) by simp
    moreover have "\<forall>b \<in> set ((first s, first s + BS) # blocks).
        first s \<le> fst b \<and> fst b \<le> snd b \<and> snd b \<le> last' s \<and>
        (snd b \<le> first s' \<or> last' s' \<le> fst b)"
      using r(3,4,5) f1 BS by auto
    ultimately show ?thesis
      using r(2,3,4,6) f1 BS d by auto
  next
    case TakeHigh
    define BS where "BS = min BlockSize (last' s - first s)"
    define s1 where "s1 = s\<lparr>last' := last' s - BS\<rparr>"
    have t: "takeHigh s = Some ((last' s - BS, last' s), s1)"
      using takeHigh_ok [OF Cons.prems] by (simp add: BS_def s1_def)
    have BS: "0 \<le> BS" "BS \<le> last' s - first s"
      using Cons.prems by (simp_all add: BS_def state_ok_def BlockSize_def)
    have ok1: "state_ok f l s1"
      using Cons.prems BS by (simp add: state_ok_def s1_def)
    obtain blocks s' where r: "run_calls calls s1 = Some (blocks, s')" "state_ok f l s'"
      "first s1 \<le> first s'" "last' s' \<le> last' s1"
      "\<forall>b \<in> set blocks. first s1 \<le> fst b \<and> fst b \<le> snd b \<and> snd b \<le> last' s1 \<and>
                (snd b \<le> first s' \<or> last' s' \<le> fst b)"
      "sorted_wrt disjoint_blocks blocks"
      using Cons.IH [OF ok1] by blast
    have f1: "first s1 = first s" "last' s1 = last' s - BS" by (simp_all add: s1_def)
    have d: "\<forall>b \<in> set blocks. disjoint_blocks (last' s - BS, last' s) b"
      using r(5) f1 by (auto simp: disjoint_blocks_def positions_def)
    have "run_calls (c # calls) s = Some ((last' s - BS, last' s) # blocks, s')"
      using TakeHigh t r(1) by simp
    moreover have "\<forall>b \<in> set ((last' s - BS, last' s) # blocks).
        first s \<le> fst b \<and> fst b \<le> snd b \<and> snd b \<le> last' s \<and>
        (snd b \<le> first s' \<or> last' s' \<le> fst b)"
      using r(3,4,5) f1 BS by auto
    ultimately show ?thesis
      using r(2,3,4,6) f1 BS d by auto
  next
    case (Update low high)
    obtain s1 where u: "update_state low high s = Some s1" "state_ok f l s1"
      "first s1 = first s" "last' s1 = last' s"
      using update_state_ok [OF Cons.prems] by blast
    show ?thesis
      using Cons.IH [OF u(2)] Update u by simp
  qed
qed

lemma init_state_ok: "f \<le> l \<Longrightarrow> state_ok f l (init_state f l)"
  by (simp add: state_ok_def init_state_def)

lemma disjoint_blocks_sym: "disjoint_blocks b c \<Longrightarrow> disjoint_blocks c b"
  by (auto simp: disjoint_blocks_def)

lemma sorted_wrt_disjoint_nth:
  assumes "sorted_wrt disjoint_blocks blocks" "i < length blocks" "j < length blocks" "i \<noteq> j"
  shows "disjoint_blocks (blocks ! i) (blocks ! j)"
proof (cases "i < j")
  case True
  then show ?thesis using assms by (simp add: sorted_wrt_iff_nth_less)
next
  case False
  then have "j < i" using assms by simp
  then have "disjoint_blocks (blocks ! j) (blocks ! i)"
    using assms by (simp add: sorted_wrt_iff_nth_less)
  then show ?thesis by (rule disjoint_blocks_sym)
qed

text \<open>
  C6. From any state with \<open>first \<le> last\<close> and the lock free, every sequence of calls of
  \<open>takeLow\<close>, \<open>takeHigh\<close> and \<open>update\<close> runs to its end, touches the shared bounds
  only while it holds the lock, releases the lock, and keeps \<open>first \<le> last\<close> within the
  range it started from; the blocks handed out lie in that range, do not meet the
  range still to be handed out, and are pairwise disjoint.
\<close>

theorem partition_helper_state_calls:
  assumes "first s0 \<le> last' s0" and "\<not> Lock s0" and "\<not> unguarded s0"
  shows "\<exists>blocks s. run_calls calls s0 = Some (blocks, s) \<and>
           first s \<le> last' s \<and> first s0 \<le> first s \<and> last' s \<le> last' s0 \<and>
           \<not> unguarded s \<and> \<not> Lock s \<and>
           (\<forall>b \<in> set blocks. first s0 \<le> fst b \<and> fst b \<le> snd b \<and> snd b \<le> last' s0 \<and>
                positions b \<inter> {first s..<last' s} = {}) \<and>
           (\<forall>i<length blocks. \<forall>j<length blocks. i \<noteq> j \<longrightarrow>
                positions (blocks ! i) \<inter> positions (blocks ! j) = {})"
proof -
  have ok: "state_ok (first s0) (last' s0) s0"
    using assms by (simp add: state_ok_def)
  obtain blocks s where r: "run_calls calls s0 = Some (blocks, s)"
      "state_ok (first s0) (last' s0) s"
      "\<forall>b \<in> set blocks. first s0 \<le> fst b \<and> fst b \<le> snd b \<and>
            snd b \<le> last' s0 \<and> (snd b \<le> first s \<or> last' s \<le> fst b)"
      "sorted_wrt disjoint_blocks blocks"
    using run_calls_ok [OF ok, of calls] by blast
  have a: "\<forall>b \<in> set blocks. first s0 \<le> fst b \<and> fst b \<le> snd b \<and> snd b \<le> last' s0 \<and>
                positions b \<inter> {first s..<last' s} = {}"
    using r(3) by (auto simp: positions_def)
  have b: "\<forall>i<length blocks. \<forall>j<length blocks. i \<noteq> j \<longrightarrow>
                positions (blocks ! i) \<inter> positions (blocks ! j) = {}"
    using sorted_wrt_disjoint_nth [OF r(4)] by (simp add: disjoint_blocks_def)
  show ?thesis
    using r(1,2) a b by (simp add: state_ok_def)
qed

theorem partition_helper_state_calls_witness:
  "first (init_state 0 2500) \<le> last' (init_state 0 2500) \<and>
   \<not> Lock (init_state 0 2500) \<and> \<not> unguarded (init_state 0 2500) \<and>
   run_calls [TakeLow, TakeHigh, TakeLow, Update (0, 0) (1476, 2500), TakeHigh] (init_state 0 2500) =
     Some ([(0, 1024), (1476, 2500), (1024, 1476), (1476, 1476)],
           \<lparr>first = 1476, last' = 1476, rfirst = 1476, rlast = 2500,
            Lock = False, unguarded = False\<rparr>) \<and>
   positions (0, 1024) \<inter> positions (1024, 1476) = {}"
proof -
  have a: "first (init_state 0 2500) \<le> last' (init_state 0 2500)"
    by (simp add: init_state_def)
  have b: "\<not> Lock (init_state 0 2500)" and c: "\<not> unguarded (init_state 0 2500)"
    by (simp_all add: init_state_def)
  have r: "run_calls [TakeLow, TakeHigh, TakeLow, Update (0, 0) (1476, 2500), TakeHigh]
             (init_state 0 2500) =
           Some ([(0, 1024), (1476, 2500), (1024, 1476), (1476, 1476)],
                 \<lparr>first = 1476, last' = 1476, rfirst = 1476, rlast = 2500,
                  Lock = False, unguarded = False\<rparr>)"
    by (simp add: init_state_def takeLow_def takeHigh_def update_state_def update_bounds_def
        lock_def unlock_def shared_def to_unsigned_def BlockSize_def Let_def)
  obtain blocks s where t:
    "run_calls [TakeLow, TakeHigh, TakeLow, Update (0, 0) (1476, 2500), TakeHigh]
       (init_state 0 2500) = Some (blocks, s)"
    "\<forall>i<length blocks. \<forall>j<length blocks. i \<noteq> j \<longrightarrow>
        positions (blocks ! i) \<inter> positions (blocks ! j) = {}"
    using partition_helper_state_calls [OF a b c] by blast
  have bl: "blocks = [(0, 1024), (1476, 2500), (1024, 1476), (1476, 1476)]"
    using t(1) r by simp
  have "length blocks = 4" by (simp add: bl)
  then have "positions (blocks ! 0) \<inter> positions (blocks ! 2) = {}"
    using t(2) [rule_format, of 0 2] by simp
  then have d: "positions (0, 1024) \<inter> positions (1024, 1476) = {}"
    by (simp add: bl)
  from a b c r d show ?thesis by blast
qed


section \<open>Results: \<open>partial_sum\<close>\<close>

lemma prefix_written_outside:
  "\<not> (d_first \<le> a \<and> a < d_first + n) \<Longrightarrow> prefix_written mem first_it d_first n a = mem a"
  unfolding prefix_written_def by (rule if_not_P)

lemma prefix_written_inside:
  "d_first \<le> a \<Longrightarrow> a < d_first + n \<Longrightarrow>
   prefix_written mem first_it d_first n a = (\<Sum>j = 0..<Suc (a - d_first). mem (first_it + j))"
  unfolding prefix_written_def by (rule if_P) (rule conjI)

lemma no_overlap_unclobbered:
  "no_overlap first_it d_first n \<Longrightarrow> reads_unclobbered first_it d_first n"
  unfolding no_overlap_def reads_unclobbered_def by fastforce

lemma partial_sum_loop_prefix:
  fixes mem0 :: "'a::comm_monoid_add memory"
  assumes "reads_unclobbered first_it d_first (Suc k + n)"
    and "mem = prefix_written mem0 first_it d_first (Suc k)"
    and "s = (\<Sum>j = 0..<Suc k. mem0 (first_it + j))"
  shows "partial_sum_loop mem (first_it + k) (d_first + k) s n =
         prefix_written mem0 first_it d_first (Suc k + n)"
  using assms
proof (induction n arbitrary: mem k s)
  case 0
  then show ?case by simp
next
  case (Suc n)
  have rd: "mem (first_it + k + 1) = mem0 (first_it + Suc k)"
  proof -
    have "\<not> (d_first \<le> first_it + Suc k \<and> first_it + Suc k < d_first + Suc k)"
    proof
      assume a: "d_first \<le> first_it + Suc k \<and> first_it + Suc k < d_first + Suc k"
      define j where "j = first_it + Suc k - d_first"
      have "first_it + Suc k = d_first + j" "j < Suc k" using a unfolding j_def by linarith+
      moreover have "Suc k < Suc k + Suc n" "j < Suc k + Suc n" using \<open>j < Suc k\<close> by simp_all
      ultimately show False using Suc.prems(1) unfolding reads_unclobbered_def by blast
    qed
    then have "prefix_written mem0 first_it d_first (Suc k) (first_it + Suc k) =
               mem0 (first_it + Suc k)"
      by (rule prefix_written_outside)
    then show ?thesis using Suc.prems(2) by simp
  qed
  let ?s' = "s + mem0 (first_it + Suc k)"
  have s': "?s' = (\<Sum>j = 0..<Suc (Suc k). mem0 (first_it + j))"
    using Suc.prems(3) by simp
  have m': "mem(d_first + k + 1 := ?s') = prefix_written mem0 first_it d_first (Suc (Suc k))"
  proof
    fix a
    show "(mem(d_first + k + 1 := ?s')) a = prefix_written mem0 first_it d_first (Suc (Suc k)) a"
    proof (cases "a = d_first + k + 1")
      case True
      then show ?thesis using s' by (simp add: prefix_written_def)
    next
      case False
      then show ?thesis using Suc.prems(2) by (auto simp: prefix_written_def)
    qed
  qed
  have no: "reads_unclobbered first_it d_first (Suc (Suc k) + n)"
    using Suc.prems(1) by simp
  have "partial_sum_loop (mem(d_first + k + 1 := ?s')) (first_it + Suc k) (d_first + Suc k) ?s' n =
        prefix_written mem0 first_it d_first (Suc (Suc k) + n)"
    by (rule Suc.IH [OF no m' s'])
  then show ?case using rd by (simp add: Let_def)
qed

lemma std_partial_sum_prefix:
  fixes mem :: "'a::comm_monoid_add memory"
  assumes "first_it \<le> last_it" and "reads_unclobbered first_it d_first (last_it - first_it)"
  shows "std_partial_sum mem first_it last_it d_first =
         (prefix_written mem first_it d_first (last_it - first_it), d_first + (last_it - first_it))"
proof (cases "first_it = last_it")
  case True
  have "prefix_written mem first_it d_first 0 = mem"
    by (rule ext) (auto simp: prefix_written_def)
  then show ?thesis using True by (simp add: std_partial_sum_def)
next
  case False
  let ?n = "last_it - first_it - 1"
  have N: "Suc 0 + ?n = last_it - first_it" using False assms(1) by simp
  have m: "mem(d_first := mem first_it) = prefix_written mem first_it d_first (Suc 0)"
    by (auto simp: prefix_written_def)
  have no: "reads_unclobbered first_it d_first (Suc 0 + ?n)"
    using assms(2) by (simp only: N)
  have s0: "mem first_it = (\<Sum>j = 0..<Suc 0. mem (first_it + j))"
    by simp
  have "partial_sum_loop (mem(d_first := mem first_it)) (first_it + 0) (d_first + 0) (mem first_it) ?n =
        prefix_written mem first_it d_first (Suc 0 + ?n)"
    by (rule partial_sum_loop_prefix [OF no m s0])
  then have "partial_sum_loop (mem(d_first := mem first_it)) first_it d_first (mem first_it) ?n =
        prefix_written mem first_it d_first (last_it - first_it)"
    by (simp only: N add_0_right)
  then show ?thesis using False by (simp add: std_partial_sum_def Let_def)
qed

lemma in_block_iff:
  assumes "0 < s"
  shows "(blockStart N s b \<le> i \<and> i < blockEnd N s b) \<longleftrightarrow> (i < N \<and> i div s = b)"
proof
  assume a: "blockStart N s b \<le> i \<and> i < blockEnd N s b"
  then have iN: "i < N" by (simp add: blockEnd_def)
  with a have lo: "b * s \<le> i" unfolding blockStart_def by linarith
  from a have hi: "i < (b + 1) * s" by (simp add: blockEnd_def)
  have "i div s = b"
    using lo hi assms by (metis Suc_eq_plus1 div_nat_eqI mult.commute mult_Suc)
  with iN show "i < N \<and> i div s = b" by simp
next
  assume a: "i < N \<and> i div s = b"
  have lo: "b * s \<le> i" using a by auto
  have hi: "i < (b + 1) * s" using a assms
    by (metis Suc_eq_plus1 dividend_less_div_times mult.commute mult_Suc)
  show "blockStart N s b \<le> i \<and> i < blockEnd N s b"
    using a lo hi unfolding blockStart_def blockEnd_def by linarith
qed

lemma blockStart_le_End: "blockStart N s b \<le> blockEnd N s b"
  by (simp add: blockStart_def blockEnd_def min_def)

lemma blockEnd_le: "blockEnd N s b \<le> N"
  by (simp add: blockEnd_def)

lemma nonempty_blockStart:
  "blockStart N s b < blockEnd N s b \<Longrightarrow> blockStart N s b = b * s"
  unfolding blockStart_def blockEnd_def by linarith

lemma transform_add_fold:
  "fold (\<lambda>p m. m(p := m p + v)) [lo..<hi] mem =
   (\<lambda>a. if lo \<le> a \<and> a < hi then mem a + v else mem a)"
proof (induction hi)
  case 0
  then show ?case by simp
next
  case (Suc hi)
  show ?case
  proof (cases "lo \<le> hi")
    case True
    then have "fold (\<lambda>p m. m(p := m p + v)) [lo..<Suc hi] mem =
          (fold (\<lambda>p m. m(p := m p + v)) [lo..<hi] mem)
            (hi := (fold (\<lambda>p m. m(p := m p + v)) [lo..<hi] mem) hi + v)"
      by simp
    then show ?thesis using Suc True by (auto simp: fun_eq_iff)
  next
    case False
    then show ?thesis by (auto simp: fun_eq_iff)
  qed
qed

lemma exclusive_scan_length [simp]: "length (exclusive_scan r ls) = length ls"
  by (induction ls arbitrary: r) simp_all

lemma exclusive_scan_nth:
  fixes r :: "'a::comm_monoid_add"
  shows "b < length ls \<Longrightarrow> exclusive_scan r ls ! b = r + sum_list (take b ls)"
proof (induction ls arbitrary: r b)
  case Nil
  then show ?case by simp
next
  case (Cons x ls)
  then show ?case by (cases b) (simp_all add: add.assoc)
qed

lemma do_all_ignore_tid: "do_all sched (\<lambda>tid. body) s = fold body (map snd sched) s"
  unfolding do_all_def by (induction sched arbitrary: s) auto

lemma valid_do_all_blocks:
  assumes "valid_do_all T n sched"
  shows "distinct (map snd sched) \<and> set (map snd sched) = {0..<n}"
proof -
  have m: "mset (map snd sched) = mset [0..<n]"
    using assms by (simp only: valid_do_all_def)
  have "distinct (map snd sched)"
    using m by (metis distinct_upt mset_eq_imp_distinct_iff)
  moreover have "set (map snd sched) = set [0..<n]"
    using m by (rule mset_eq_setD)
  ultimately show ?thesis by simp
qed

lemma block_local_unprocessed:
  assumes "no_overlap first_it d_first N" and "i < N" and "i div s \<notin> P"
  shows "block_local mem0 first_it d_first N s P (first_it + i) = mem0 (first_it + i)"
proof (cases "d_first \<le> first_it + i \<and> first_it + i < d_first + N")
  case True
  define j where "j = first_it + i - d_first"
  have j: "first_it + i = d_first + j" "j < N" using True unfolding j_def by linarith+
  then have "i = j" using assms(1,2) unfolding no_overlap_def by blast
  then have "(first_it + i - d_first) div s \<notin> P" using assms(3) j_def by simp
  then show ?thesis by (simp add: block_local_def)
next
  case False
  then show ?thesis by (auto simp: block_local_def)
qed

lemma block_written:
  fixes mem0 :: "'a::comm_monoid_add memory"
  assumes s: "0 < s" and no: "no_overlap first_it d_first N" and bP: "b \<notin> P"
  shows "prefix_written (block_local mem0 first_it d_first N s P)
           (first_it + blockStart N s b) (d_first + blockStart N s b)
           (blockEnd N s b - blockStart N s b) =
         block_local mem0 first_it d_first N s (insert b P)"
proof
  fix a
  let ?bS = "blockStart N s b" and ?bE = "blockEnd N s b"
  let ?mem = "block_local mem0 first_it d_first N s P"
  have le: "?bS \<le> ?bE" by (rule blockStart_le_End)
  show "prefix_written ?mem (first_it + ?bS) (d_first + ?bS) (?bE - ?bS) a =
        block_local mem0 first_it d_first N s (insert b P) a"
  proof (cases "d_first + ?bS \<le> a \<and> a < d_first + ?bS + (?bE - ?bS)")
    case True
    define i where "i = a - d_first"
    have a: "a = d_first + i" and i: "?bS \<le> i" "i < ?bE" using True le unfolding i_def by linarith+
    have ib: "i < N \<and> i div s = b" using in_block_iff [OF s, of N b i] i by simp
    have bS: "?bS = b * s" using i by (intro nonempty_blockStart) linarith
    have "prefix_written ?mem (first_it + ?bS) (d_first + ?bS) (?bE - ?bS) a =
          (\<Sum>j = 0..<Suc (a - (d_first + ?bS)). ?mem (first_it + ?bS + j))"
      using True by (intro prefix_written_inside) simp_all
    also have "\<dots> = (\<Sum>j = 0..<Suc (i - ?bS). ?mem (first_it + ?bS + j))"
      using a by simp
    also have "\<dots> = (\<Sum>j = 0..<Suc (i - ?bS). mem0 (first_it + ?bS + j))"
    proof (rule sum.cong)
      fix j assume "j \<in> {0..<Suc (i - ?bS)}"
      then have jj: "?bS \<le> ?bS + j" "?bS + j < ?bE" using i by auto
      then have "?bS + j < N \<and> (?bS + j) div s = b"
        using in_block_iff [OF s, of N b "?bS + j"] by simp
      then have "?mem (first_it + (?bS + j)) = mem0 (first_it + (?bS + j))"
        using bP by (intro block_local_unprocessed [OF no]) simp_all
      then show "?mem (first_it + ?bS + j) = mem0 (first_it + ?bS + j)"
        by (simp add: add.assoc)
    qed simp
    also have "\<dots> = (\<Sum>j = 0..<Suc (i - ?bS). (\<lambda>j. mem0 (first_it + j)) (j + ?bS))"
      by (simp add: ac_simps)
    also have "\<dots> = (\<Sum>j = 0 + ?bS..<Suc (i - ?bS) + ?bS. mem0 (first_it + j))"
      by (rule sum.shift_bounds_nat_ivl [symmetric])
    also have "\<dots> = (\<Sum>j = ?bS..<Suc i. mem0 (first_it + j))"
      using i by simp
    finally have lhs: "prefix_written ?mem (first_it + ?bS) (d_first + ?bS) (?bE - ?bS) a =
          (\<Sum>j = ?bS..<Suc i. mem0 (first_it + j))" .
    have "block_local mem0 first_it d_first N s (insert b P) a =
          (\<Sum>j = (i div s) * s..<Suc i. mem0 (first_it + j))"
      using a ib by (simp add: block_local_def)
    with lhs ib bS show ?thesis by simp
  next
    case False
    then have l: "prefix_written ?mem (first_it + ?bS) (d_first + ?bS) (?bE - ?bS) a = ?mem a"
      by (rule prefix_written_outside)
    have "\<not> (d_first \<le> a \<and> a < d_first + N \<and> (a - d_first) div s = b)"
    proof
      assume h: "d_first \<le> a \<and> a < d_first + N \<and> (a - d_first) div s = b"
      then have "a - d_first < N \<and> (a - d_first) div s = b" by auto
      then have "?bS \<le> a - d_first \<and> a - d_first < ?bE"
        using in_block_iff [OF s, of N b "a - d_first"] by simp
      with h False show False by linarith
    qed
    then have "block_local mem0 first_it d_first N s (insert b P) a = ?mem a"
      by (auto simp: block_local_def)
    with l show ?thesis by simp
  qed
qed

lemma no_overlap_block:
  assumes "no_overlap first_it d_first N" and "bS \<le> bE" and "bE \<le> N"
  shows "no_overlap (first_it + bS) (d_first + bS) (first_it + bE - (first_it + bS))"
  unfolding no_overlap_def
proof (intro allI impI)
  fix i j
  assume i: "i < first_it + bE - (first_it + bS)" and j: "j < first_it + bE - (first_it + bS)"
    and e: "first_it + bS + i = d_first + bS + j"
  have "bS + i < N" "bS + j < N" using i j assms(2,3) by linarith+
  moreover have "first_it + (bS + i) = d_first + (bS + j)" using e by simp
  ultimately have "bS + i = bS + j" using assms(1) unfolding no_overlap_def by blast
  then show "i = j" by simp
qed

lemma block_local_last:
  assumes s: "0 < s" and ne: "blockStart N s b < blockEnd N s b"
  shows "block_local mem0 first_it d_first N s (insert b P) (d_first + blockEnd N s b - 1) =
         (\<Sum>j = blockStart N s b..<blockEnd N s b. mem0 (first_it + j))"
proof -
  let ?bS = "blockStart N s b" and ?bE = "blockEnd N s b"
  define i where "i = ?bE - 1"
  have i: "?bS \<le> i" "i < ?bE" "Suc i = ?bE" using ne unfolding i_def by linarith+
  have ib: "i < N \<and> i div s = b" using in_block_iff [OF s, of N b i] i by simp
  have bS: "?bS = b * s" using ne by (rule nonempty_blockStart)
  have a: "d_first + ?bE - 1 = d_first + i" using i by simp
  have "block_local mem0 first_it d_first N s (insert b P) (d_first + i) =
        (\<Sum>j = (i div s) * s..<Suc i. mem0 (first_it + j))"
    using ib by (simp add: block_local_def)
  then show ?thesis using a ib bS i(3) by simp
qed

lemma block_sums_step:
  fixes mem0 :: "'a::comm_monoid_add memory"
  assumes s: "0 < s" and no: "no_overlap first_it d_first N" and bP: "b \<notin> P"
    and ok: "sums_ok mem0 first_it N s P ls"
  shows "\<exists>ls'. block_sums N s first_it d_first racy b (block_local mem0 first_it d_first N s P, ls) =
                 (block_local mem0 first_it d_first N s (insert b P), ls') \<and>
               length ls' = length ls \<and>
               (b < length ls \<longrightarrow> sums_ok mem0 first_it N s (insert b P) ls')"
proof -
  let ?bS = "blockStart N s b" and ?bE = "blockEnd N s b"
  let ?mem = "block_local mem0 first_it d_first N s P"
  let ?mem' = "block_local mem0 first_it d_first N s (insert b P)"
  have le: "?bS \<le> ?bE" by (rule blockStart_le_End)
  have nb: "reads_unclobbered (first_it + ?bS) (d_first + ?bS) (first_it + ?bE - (first_it + ?bS))"
    by (rule no_overlap_unclobbered [OF no_overlap_block [OF no le blockEnd_le]])
  have "std_partial_sum ?mem (first_it + ?bS) (first_it + ?bE) (d_first + ?bS) =
        (prefix_written ?mem (first_it + ?bS) (d_first + ?bS) (first_it + ?bE - (first_it + ?bS)),
         d_first + ?bS + (first_it + ?bE - (first_it + ?bS)))"
    using le by (intro std_partial_sum_prefix [OF _ nb]) simp
  then have sp: "fst (std_partial_sum ?mem (first_it + ?bS) (first_it + ?bE) (d_first + ?bS)) = ?mem'"
    using block_written [OF s no bP, of mem0] by simp
  define ls' where "ls' = (if ?bE > 0
      then ls[b := (if ?bS < ?bE then ?mem' (d_first + ?bE - 1) else racy b)] else ls[b := 0])"
  have r: "block_sums N s first_it d_first racy b (?mem, ls) = (?mem', ls')"
    unfolding block_sums_def ls'_def Let_def by (simp only: sp prod.case) simp
  have len: "length ls' = length ls" by (simp add: ls'_def)
  have sok: "sums_ok mem0 first_it N s (insert b P) ls'" if bl: "b < length ls"
    unfolding sums_ok_def
  proof (intro ballI impI)
    fix c assume c: "c \<in> insert b P" and ne: "blockStart N s c < blockEnd N s c"
    show "ls' ! c = (\<Sum>j = blockStart N s c..<blockEnd N s c. mem0 (first_it + j))"
    proof (cases "c = b")
      case True
      have "0 < ?bE" "?bS < ?bE" using ne True by simp_all
      then have "ls' ! b = ?mem' (d_first + ?bE - 1)" using bl by (simp add: ls'_def)
      then show ?thesis using block_local_last [OF s, of N b mem0 first_it d_first P] ne True
        by simp
    next
      case False
      then have "c \<in> P" using c by simp
      moreover have "ls' ! c = ls ! c" using False by (simp add: ls'_def)
      ultimately show ?thesis using ok ne unfolding sums_ok_def by simp
    qed
  qed
  show ?thesis using r len sok by blast
qed

lemma phase1:
  fixes mem0 :: "'a::comm_monoid_add memory"
  assumes s: "0 < s" and no: "no_overlap first_it d_first N"
  shows "distinct bl \<Longrightarrow> set bl \<inter> P = {} \<Longrightarrow> \<forall>b \<in> set bl. b < length ls \<Longrightarrow>
         sums_ok mem0 first_it N s P ls \<Longrightarrow>
         \<exists>ls'. fold (block_sums N s first_it d_first racy) bl (block_local mem0 first_it d_first N s P, ls) =
                 (block_local mem0 first_it d_first N s (P \<union> set bl), ls') \<and>
               length ls' = length ls \<and> sums_ok mem0 first_it N s (P \<union> set bl) ls'"
proof (induction bl arbitrary: P ls)
  case Nil
  then show ?case by simp
next
  case (Cons b bl)
  have bP: "b \<notin> P" using Cons.prems(2) by simp
  have bl: "b < length ls" using Cons.prems(3) by simp
  obtain ls1 where st: "block_sums N s first_it d_first racy b (block_local mem0 first_it d_first N s P, ls) =
                 (block_local mem0 first_it d_first N s (insert b P), ls1)"
      "length ls1 = length ls" "sums_ok mem0 first_it N s (insert b P) ls1"
    using block_sums_step [OF s no bP Cons.prems(4)] bl by blast
  have d: "distinct bl" "set bl \<inter> insert b P = {}" "\<forall>c \<in> set bl. c < length ls1"
    using Cons.prems(1,2,3) st(2) by auto
  obtain ls' where r: "fold (block_sums N s first_it d_first racy) bl
        (block_local mem0 first_it d_first N s (insert b P), ls1) =
        (block_local mem0 first_it d_first N s (insert b P \<union> set bl), ls')"
      "length ls' = length ls1" "sums_ok mem0 first_it N s (insert b P \<union> set bl) ls'"
    using Cons.IH [OF d st(3)] by blast
  have "insert b P \<union> set bl = P \<union> set (b # bl)" by simp
  then show ?case using st r by simp
qed

lemma block_local_empty: "block_local mem0 first_it d_first N s {} = mem0"
  by (rule ext) (simp add: block_local_def)

lemma sum_list_take_blocks:
  fixes mem0 :: "'a::comm_monoid_add memory"
  assumes s: "0 < s" and ok: "sums_ok mem0 first_it N s {0..<T} ls" and len: "length ls = T"
  shows "b \<le> T \<Longrightarrow> b * s \<le> N \<Longrightarrow>
         sum_list (take b ls) = (\<Sum>j = 0..<b * s. mem0 (first_it + j))"
proof (induction b)
  case 0
  then show ?case by simp
next
  case (Suc b)
  have bT: "b < T" and bN: "b * s + s \<le> N" using Suc.prems by simp_all
  have bS: "blockStart N s b = b * s" using bN by (simp add: blockStart_def)
  have bE: "blockEnd N s b = b * s + s" using bN by (simp add: blockEnd_def)
  have "blockStart N s b < blockEnd N s b" using s bS bE by simp
  then have lb: "ls ! b = (\<Sum>j = b * s..<b * s + s. mem0 (first_it + j))"
    using ok bT bS bE unfolding sums_ok_def by simp
  have "take (Suc b) ls = take b ls @ [ls ! b]"
    using bT len by (simp add: take_Suc_conv_app_nth)
  then have "sum_list (take (Suc b) ls) = sum_list (take b ls) + ls ! b" by simp
  also have "\<dots> = (\<Sum>j = 0..<b * s. mem0 (first_it + j)) +
                   (\<Sum>j = b * s..<b * s + s. mem0 (first_it + j))"
    using Suc.IH bT bN lb by simp
  also have "\<dots> = (\<Sum>j = 0..<b * s + s. mem0 (first_it + j))"
    by (rule sum.atLeastLessThan_concat) simp_all
  finally show ?case by (simp add: add.commute)
qed

lemma block_offset_empty: "block_offset mem1 d_first N s bp {} = mem1"
  by (rule ext) (simp add: block_offset_def)

lemma add_block_prefix_step:
  assumes s: "0 < s" and bQ: "b \<notin> Q"
  shows "add_block_prefix N s d_first bp b (block_offset mem1 d_first N s bp Q) =
         block_offset mem1 d_first N s bp (insert b Q)"
proof
  fix a
  let ?bS = "blockStart N s b" and ?bE = "blockEnd N s b"
  let ?mem = "block_offset mem1 d_first N s bp Q"
  have r: "add_block_prefix N s d_first bp b ?mem a =
        (if d_first + ?bS \<le> a \<and> a < d_first + ?bE then ?mem a + bp ! b else ?mem a)"
    by (simp add: add_block_prefix_def std_transform_add_def transform_add_fold Let_def)
  have blk: "(d_first + ?bS \<le> a \<and> a < d_first + ?bE) \<longleftrightarrow>
             (d_first \<le> a \<and> a < d_first + N \<and> (a - d_first) div s = b)"
  proof (cases "d_first \<le> a")
    case True
    have "(?bS \<le> a - d_first \<and> a - d_first < ?bE) \<longleftrightarrow>
          (a - d_first < N \<and> (a - d_first) div s = b)"
      by (rule in_block_iff [OF s])
    then show ?thesis using True by auto
  next
    case False
    then show ?thesis by simp
  qed
  show "add_block_prefix N s d_first bp b ?mem a = block_offset mem1 d_first N s bp (insert b Q) a"
  proof (cases "d_first \<le> a \<and> a < d_first + N \<and> (a - d_first) div s = b")
    case True
    then have "?mem a = mem1 a" using bQ by (simp add: block_offset_def)
    moreover have "block_offset mem1 d_first N s bp (insert b Q) a = mem1 a + bp ! b"
      using True by (simp add: block_offset_def)
    ultimately show ?thesis using r blk True by simp
  next
    case False
    then have "block_offset mem1 d_first N s bp (insert b Q) a = ?mem a"
      by (auto simp: block_offset_def)
    then show ?thesis using r blk False by simp
  qed
qed

lemma phase2:
  assumes s: "0 < s"
  shows "distinct bl \<Longrightarrow> set bl \<inter> Q = {} \<Longrightarrow>
         fold (add_block_prefix N s d_first bp) bl (block_offset mem1 d_first N s bp Q) =
         block_offset mem1 d_first N s bp (Q \<union> set bl)"
proof (induction bl arbitrary: Q)
  case Nil
  then show ?case by simp
next
  case (Cons b bl)
  have bQ: "b \<notin> Q" using Cons.prems(2) by simp
  have d: "distinct bl" "set bl \<inter> insert b Q = {}" using Cons.prems by auto
  have "insert b Q \<union> set bl = Q \<union> set (b # bl)" by simp
  then show ?case
    using Cons.IH [OF d] add_block_prefix_step [OF s bQ, of N d_first bp mem1] by simp
qed

lemma parallel_path:
  fixes mem :: "'a::comm_monoid_add memory"
  assumes T: "0 < T" and N: "0 < N" and no: "no_overlap first_it d_first N"
    and v1: "valid_do_all T T sched1" and v2: "valid_do_all T T sched2"
  shows "(let bsz = blockSize N T;
              localSums = replicate T 0;
              (mem1, localSums) =
                 do_all sched1 (\<lambda>tid. block_sums N bsz first_it d_first racy) (mem, localSums);
              bulkPrefix = exclusive_scan 0 localSums
          in do_all sched2 (\<lambda>tid. add_block_prefix N bsz d_first bulkPrefix) mem1) =
         prefix_written mem first_it d_first N"
proof -
  let ?s = "blockSize N T"
  have s: "0 < ?s" by (rule blockSize_pos [OF T N])
  have cov: "N \<le> T * ?s" by (rule blockSize_covers [OF T])
  have b1: "distinct (map snd sched1)" "set (map snd sched1) = {0..<T}"
    using valid_do_all_blocks [OF v1] by simp_all
  have b2: "distinct (map snd sched2)" "set (map snd sched2) = {0..<T}"
    using valid_do_all_blocks [OF v2] by simp_all
  have "\<exists>ls'. fold (block_sums N ?s first_it d_first racy) (map snd sched1)
            (block_local mem first_it d_first N ?s {}, replicate T 0) =
          (block_local mem first_it d_first N ?s ({} \<union> set (map snd sched1)), ls') \<and>
          length ls' = length (replicate T (0::'a)) \<and>
          sums_ok mem first_it N ?s ({} \<union> set (map snd sched1)) ls'"
    using b1 by (intro phase1 [OF s no]) (simp_all add: sums_ok_def)
  then obtain ls where p1: "fold (block_sums N ?s first_it d_first racy) (map snd sched1)
            (mem, replicate T 0) = (block_local mem first_it d_first N ?s {0..<T}, ls)"
      and len: "length ls = T" and ok: "sums_ok mem first_it N ?s {0..<T} ls"
    using b1(2) by (auto simp: block_local_empty)
  let ?mem1 = "block_local mem first_it d_first N ?s {0..<T}"
  let ?bp = "exclusive_scan 0 ls"
  have "fold (add_block_prefix N ?s d_first ?bp) (map snd sched2)
          (block_offset ?mem1 d_first N ?s ?bp {}) =
        block_offset ?mem1 d_first N ?s ?bp ({} \<union> set (map snd sched2))"
    using b2 by (intro phase2 [OF s]) simp_all
  then have p2: "fold (add_block_prefix N ?s d_first ?bp) (map snd sched2) ?mem1 =
        block_offset ?mem1 d_first N ?s ?bp {0..<T}"
    using b2(2) by (simp add: block_offset_empty)
  have fin: "block_offset ?mem1 d_first N ?s ?bp {0..<T} = prefix_written mem first_it d_first N"
  proof
    fix a
    show "block_offset ?mem1 d_first N ?s ?bp {0..<T} a = prefix_written mem first_it d_first N a"
    proof (cases "d_first \<le> a \<and> a < d_first + N")
      case True
      define i where "i = a - d_first"
      define b where "b = i div ?s"
      have i: "i < N" using True unfolding i_def by linarith
      have lo: "b * ?s \<le> i" by (simp add: b_def)
      then have "b * ?s < T * ?s" using i cov by linarith
      then have bT: "b < T" by simp
      have bN: "b * ?s \<le> N" using lo i by linarith
      have m1: "?mem1 a = (\<Sum>j = b * ?s..<Suc i. mem (first_it + j))"
        using True bT by (simp add: block_local_def i_def b_def)
      have "?bp ! b = 0 + sum_list (take b ls)"
        using bT len by (intro exclusive_scan_nth) simp
      also have "\<dots> = (\<Sum>j = 0..<b * ?s. mem (first_it + j))"
        using sum_list_take_blocks [OF s ok len, of b] bT bN by simp
      finally have bp: "?bp ! b = (\<Sum>j = 0..<b * ?s. mem (first_it + j))" .
      have "block_offset ?mem1 d_first N ?s ?bp {0..<T} a = ?mem1 a + ?bp ! b"
        using True bT by (simp add: block_offset_def i_def b_def)
      also have "\<dots> = (\<Sum>j = 0..<b * ?s. mem (first_it + j)) +
                       (\<Sum>j = b * ?s..<Suc i. mem (first_it + j))"
        by (simp only: m1 bp add.commute)
      also have "\<dots> = (\<Sum>j = 0..<Suc i. mem (first_it + j))"
        using lo by (intro sum.atLeastLessThan_concat) simp_all
      also have "\<dots> = prefix_written mem first_it d_first N a"
        using True by (simp add: prefix_written_def i_def)
      finally show ?thesis .
    next
      case False
      then show ?thesis by (auto simp: block_offset_def block_local_def prefix_written_def)
    qed
  qed
  show ?thesis
    by (simp only: Let_def do_all_ignore_tid p1 prod.case p2 fin)
qed

text \<open>
  C9 (as amended). For every input range of a value type whose \<open>+\<close> is associative and
  commutative with \<open>0\<close> neutral (the integer types, wrap-around included), every output
  destination that is the input range itself or does not overlap it, every positive
  number of threads, every execution of the two parallel loops and every value the
  unordered reads of the empty blocks return, \<open>partial_sum\<close> leaves the memory that the
  serial \<open>std::partial_sum\<close> leaves and returns the same iterator,
  \<open>d_first + (last - first)\<close>; the value written at index \<open>k\<close> is the sum of the inputs
  \<open>0 .. k\<close>. Ranges shorter than 1024 take the serial path, the others the parallel one.
\<close>

theorem partial_sum_refines_serial:
  fixes mem :: "'a::comm_monoid_add memory"
  assumes "0 < T" and "first_it \<le> last_it"
    and "no_overlap first_it d_first (last_it - first_it)"
    and "valid_do_all T T sched1" and "valid_do_all T T sched2"
  shows "partial_sum T sched1 sched2 racy mem first_it last_it d_first =
           std_partial_sum mem first_it last_it d_first \<and>
         snd (partial_sum T sched1 sched2 racy mem first_it last_it d_first) =
           d_first + (last_it - first_it) \<and>
         (\<forall>k < last_it - first_it.
            fst (partial_sum T sched1 sched2 racy mem first_it last_it d_first) (d_first + k) =
            (\<Sum>j = 0..<Suc k. mem (first_it + j)))"
proof -
  let ?N = "last_it - first_it"
  have ser: "std_partial_sum mem first_it last_it d_first =
             (prefix_written mem first_it d_first ?N, d_first + ?N)"
    by (rule std_partial_sum_prefix [OF assms(2) no_overlap_unclobbered [OF assms(3)]])
  have eq: "partial_sum T sched1 sched2 racy mem first_it last_it d_first =
            std_partial_sum mem first_it last_it d_first"
  proof (cases "?N \<ge> 1024")
    case True
    then have N: "0 < ?N" by simp
    have "partial_sum T sched1 sched2 racy mem first_it last_it d_first =
          (prefix_written mem first_it d_first ?N, d_first + ?N)"
      using parallel_path [OF assms(1) N assms(3,4,5), of racy mem] True
      by (simp add: partial_sum_def Let_def split: prod.splits)
    with ser show ?thesis by simp
  next
    case False
    then show ?thesis by (simp add: partial_sum_def)
  qed
  have "prefix_written mem first_it d_first ?N (d_first + k) =
          (\<Sum>j = 0..<Suc k. mem (first_it + j))" if "k < ?N" for k
    using prefix_written_inside [of d_first "d_first + k" ?N mem first_it] that by simp
  with eq ser show ?thesis by simp
qed

theorem partial_sum_refines_serial_witness:
  "(0::nat) < 48 \<and> (0::nat) \<le> 1024 \<and> no_overlap 0 0 (1024 - 0) \<and>
   valid_do_all 48 48 (map (\<lambda>i. (i mod 48, i)) [0..<48]) \<and>
   valid_do_all 48 48 (map (\<lambda>i. (i mod 48, i)) (rev [0..<48])) \<and>
   snd (partial_sum 48 (map (\<lambda>i. (i mod 48, i)) [0..<48])
          (map (\<lambda>i. (i mod 48, i)) (rev [0..<48])) (\<lambda>b. 7) (\<lambda>a. 1::nat) 0 1024 0) = 1024 \<and>
   fst (partial_sum 48 (map (\<lambda>i. (i mod 48, i)) [0..<48])
          (map (\<lambda>i. (i mod 48, i)) (rev [0..<48])) (\<lambda>b. 7) (\<lambda>a. 1::nat) 0 1024 0) 1023 = 1024"
proof -
  have T: "(0::nat) < 48" and fl: "(0::nat) \<le> 1024" by simp_all
  have no: "no_overlap 0 0 (1024 - 0)" by (simp add: no_overlap_def)
  have v1: "valid_do_all 48 48 (map (\<lambda>i. (i mod 48, i)) [0..<48])"
    by (rule valid_do_all_round_robin) simp
  have v2: "valid_do_all 48 48 (map (\<lambda>i. (i mod 48, i)) (rev [0..<48]))"
    by (simp add: valid_do_all_def comp_def)
  note th = partial_sum_refines_serial [OF T fl no v1 v2, of "\<lambda>b. 7" "\<lambda>a. 1::nat"]
  have a: "snd (partial_sum 48 (map (\<lambda>i. (i mod 48, i)) [0..<48])
          (map (\<lambda>i. (i mod 48, i)) (rev [0..<48])) (\<lambda>b. 7) (\<lambda>a. 1::nat) 0 1024 0) = 1024"
    using th [THEN conjunct2, THEN conjunct1] by simp
  have "fst (partial_sum 48 (map (\<lambda>i. (i mod 48, i)) [0..<48])
          (map (\<lambda>i. (i mod 48, i)) (rev [0..<48])) (\<lambda>b. 7) (\<lambda>a. 1::nat) 0 1024 0) (0 + 1023) =
        (\<Sum>j = 0..<Suc 1023. (\<lambda>a. 1::nat) (0 + j))"
    using th [THEN conjunct2, THEN conjunct2, rule_format, of 1023] by simp
  then have b: "fst (partial_sum 48 (map (\<lambda>i. (i mod 48, i)) [0..<48])
          (map (\<lambda>i. (i mod 48, i)) (rev [0..<48])) (\<lambda>b. 7) (\<lambda>a. 1::nat) 0 1024 0) 1023 = 1024"
    by simp
  from T fl no v1 v2 a b show ?thesis by blast
qed

lemma trunc8_small: "n < 256 \<Longrightarrow> trunc8 n = n"
  by (subst trunc8.simps) simp

lemma trunc8_256: "trunc8 256 = 256"
  by (subst trunc8.simps) (simp add: trunc8_small)

lemma trunc8_257: "trunc8 257 = 256"
  by (subst trunc8.simps) (simp add: trunc8_small)

lemma trunc8_258: "trunc8 258 = 258"
  by (subst trunc8.simps) (simp add: trunc8_small)

lemma minifloat_plus: "Minifloat a + Minifloat b = Minifloat (trunc8 (a + b))"
  by (simp add: plus_minifloat_def)

lemma minifloat_not_associative:
  "(Minifloat 256 + Minifloat 1) + Minifloat 1 \<noteq> Minifloat 256 + (Minifloat 1 + Minifloat 1)"
  by (simp add: minifloat_plus trunc8_small trunc8_257 trunc8_258)

lemma partial_sum_loop_frame:
  "a \<le> d_first \<or> d_first + n < a \<Longrightarrow> partial_sum_loop mem first_it d_first acc n a = mem a"
proof (induction n arbitrary: mem first_it d_first acc)
  case 0
  then show ?case by simp
next
  case (Suc n)
  have "a \<le> d_first + 1 \<or> d_first + 1 + n < a" using Suc.prems by linarith
  then have "partial_sum_loop (mem(d_first + 1 := acc + mem (first_it + 1))) (first_it + 1)
               (d_first + 1) (acc + mem (first_it + 1)) n a =
             (mem(d_first + 1 := acc + mem (first_it + 1))) a"
    by (rule Suc.IH)
  moreover have "a \<noteq> d_first + 1" using Suc.prems by linarith
  ultimately show ?case by (simp add: Let_def)
qed

lemma partial_sum_loop_next:
  "partial_sum_loop mem first_it d_first acc (Suc n) (d_first + 1) = acc + mem (first_it + 1)"
proof -
  have "partial_sum_loop (mem(d_first + 1 := acc + mem (first_it + 1))) (first_it + 1)
          (d_first + 1) (acc + mem (first_it + 1)) n (d_first + 1) =
        (mem(d_first + 1 := acc + mem (first_it + 1))) (d_first + 1)"
    by (rule partial_sum_loop_frame) simp
  then show ?thesis by (simp add: Let_def)
qed

lemma partial_sum_loop_stuck:
  assumes "\<forall>i. 1 \<le> i \<and> i \<le> n \<longrightarrow> acc + mem (first_it + i) = acc"
    and "\<forall>i j. 1 \<le> i \<and> i \<le> n \<and> 1 \<le> j \<and> j \<le> n \<longrightarrow> first_it + i \<noteq> d_first + j"
  shows "partial_sum_loop mem first_it d_first acc n =
         (\<lambda>a. if d_first < a \<and> a \<le> d_first + n then acc else mem a)"
  using assms
proof (induction n arbitrary: mem first_it d_first)
  case 0
  then show ?case by (auto simp: fun_eq_iff)
next
  case (Suc n)
  have a1: "acc + mem (first_it + 1) = acc" using Suc.prems(1) [rule_format, of 1] by simp
  let ?mem = "mem(d_first + 1 := acc)"
  have p1: "\<forall>i. 1 \<le> i \<and> i \<le> n \<longrightarrow> acc + ?mem (first_it + 1 + i) = acc"
  proof (intro allI impI)
    fix i assume i: "1 \<le> i \<and> i \<le> n"
    then have "first_it + (i + 1) \<noteq> d_first + 1"
      using Suc.prems(2) [rule_format, of "i + 1" 1] by simp
    moreover have "acc + mem (first_it + (i + 1)) = acc"
      using Suc.prems(1) [rule_format, of "i + 1"] i by simp
    ultimately show "acc + ?mem (first_it + 1 + i) = acc" by (simp add: add.commute add.left_commute)
  qed
  have p2: "\<forall>i j. 1 \<le> i \<and> i \<le> n \<and> 1 \<le> j \<and> j \<le> n \<longrightarrow>
              first_it + 1 + i \<noteq> d_first + 1 + j"
  proof (intro allI impI)
    fix i j assume "1 \<le> i \<and> i \<le> n \<and> 1 \<le> j \<and> j \<le> n"
    then have "first_it + (i + 1) \<noteq> d_first + (j + 1)"
      using Suc.prems(2) [rule_format, of "i + 1" "j + 1"] by simp
    then show "first_it + 1 + i \<noteq> d_first + 1 + j" by simp
  qed
  have "partial_sum_loop ?mem (first_it + 1) (d_first + 1) acc n =
        (\<lambda>a. if d_first + 1 < a \<and> a \<le> d_first + 1 + n then acc else ?mem a)"
    by (rule Suc.IH [OF p1 p2])
  then show ?case using a1 by (auto simp: Let_def fun_eq_iff)
qed

lemma std_partial_sum_frame:
  assumes "first_it \<le> last_it" and "a < d_first \<or> d_first + (last_it - first_it) \<le> a"
  shows "fst (std_partial_sum mem first_it last_it d_first) a = mem a"
proof (cases "first_it = last_it")
  case True
  then show ?thesis by (simp add: std_partial_sum_def)
next
  case False
  then have "a \<le> d_first \<or> d_first + (last_it - first_it - 1) < a" and "a \<noteq> d_first"
    using assms by linarith+
  then have "partial_sum_loop (mem(d_first := mem first_it)) first_it d_first (mem first_it)
               (last_it - first_it - 1) a = mem a"
    using partial_sum_loop_frame [of a d_first "last_it - first_it - 1"
        "mem(d_first := mem first_it)" first_it "mem first_it"] by simp
  then show ?thesis using False by (simp add: std_partial_sum_def Let_def)
qed


lemma blocks_1024_2:
  "blockSize 1024 2 = 512" "blockStart 1024 512 0 = 0" "blockEnd 1024 512 0 = 512"
  "blockStart 1024 512 1 = 512" "blockEnd 1024 512 1 = 1024"
  "blockStart 1024 512 (Suc 0) = 512" "blockEnd 1024 512 (Suc 0) = 1024"
  by (simp_all add: blockSize_def blockStart_def blockEnd_def)

lemma second_pass_two_blocks:
  "do_all [(0, 0), (1, 1)] (\<lambda>tid. add_block_prefix 1024 512 d_first bp) mem =
   block_offset mem d_first 1024 512 bp {0, 1}"
proof -
  have "fold (add_block_prefix 1024 512 d_first bp) [0, 1] (block_offset mem d_first 1024 512 bp {}) =
        block_offset mem d_first 1024 512 bp ({} \<union> set [0, 1])"
    by (rule phase2) simp_all
  then show ?thesis
    by (simp add: do_all_def block_offset_empty)
qed

lemma serial_minifloat:
  "fst (std_partial_sum memF 0 1024 1024) 1537 = Minifloat 256"
proof -
  let ?mem = "memF(1024 := Minifloat 256)"
  have "partial_sum_loop ?mem 0 1024 (Minifloat 256) 1023 =
        (\<lambda>a. if 1024 < a \<and> a \<le> 1024 + 1023 then Minifloat 256 else ?mem a)"
    by (rule partial_sum_loop_stuck) (auto simp: memF_def minifloat_plus trunc8_257)
  then show ?thesis
    by (simp add: std_partial_sum_def memF_def Let_def)
qed

lemma parallel_minifloat:
  "fst (partial_sum 2 [(0, 0), (1, 1)] [(0, 0), (1, 1)] racy memF 0 1024 1024) 1537 = Minifloat 258"
proof -
  define m1 where "m1 = fst (std_partial_sum memF 0 512 1024)"
  define m2 where "m2 = fst (std_partial_sum m1 512 1024 1536)"
  have l0: "partial_sum_loop (memF(1024 := Minifloat 256)) 0 1024 (Minifloat 256) 511 =
        (\<lambda>a. if 1024 < a \<and> a \<le> 1024 + 511 then Minifloat 256
             else (memF(1024 := Minifloat 256)) a)"
    by (rule partial_sum_loop_stuck) (auto simp: memF_def minifloat_plus trunc8_257)
  have m1: "m1 = (\<lambda>a. if 1024 < a \<and> a \<le> 1535 then Minifloat 256
             else (memF(1024 := Minifloat 256)) a)"
    using l0 by (simp add: m1_def std_partial_sum_def memF_def Let_def)
  have m1_512: "m1 512 = Minifloat 1" and m1_513: "m1 513 = Minifloat 1"
    and m1_1535: "m1 1535 = Minifloat 256"
    by (simp_all add: m1 memF_def)
  have "partial_sum_loop (m1(1536 := m1 512)) 512 1536 (m1 512) (Suc 510) (1536 + 1) =
        m1 512 + (m1(1536 := m1 512)) (512 + 1)"
    by (rule partial_sum_loop_next)
  then have "m2 1537 = m1 512 + m1 513"
    by (simp add: m2_def std_partial_sum_def Let_def)
  then have m2_1537: "m2 1537 = Minifloat 2"
    by (simp add: m1_512 m1_513 minifloat_plus trunc8_small)
  have s0: "block_sums 1024 512 0 1024 racy 0 (memF, [0, 0]) = (m1, [m1 1535, 0])"
    by (simp add: block_sums_def blocks_1024_2 m1_def Let_def)
  have s1: "block_sums 1024 512 0 1024 racy 1 (m1, [m1 1535, 0]) = (m2, [m1 1535, m2 2047])"
    by (simp add: block_sums_def blocks_1024_2 m2_def Let_def)
  have p1: "do_all [(0, 0), (1, 1)] (\<lambda>tid. block_sums 1024 512 0 1024 racy) (memF, replicate 2 0) =
            (m2, [m1 1535, m2 2047])"
    using s0 s1 by (simp add: do_all_def numeral_2_eq_2)
  have bp: "exclusive_scan 0 [m1 1535, m2 2047] ! 1 = Minifloat 256"
    by (simp add: m1_1535 zero_minifloat_def minifloat_plus trunc8_256)
  have "partial_sum 2 [(0, 0), (1, 1)] [(0, 0), (1, 1)] racy memF 0 1024 1024 =
        (block_offset m2 1024 1024 512 (exclusive_scan 0 [m1 1535, m2 2047]) {0, 1}, 1024 + 1024)"
    using p1 second_pass_two_blocks [of 1024 "exclusive_scan 0 [m1 1535, m2 2047]" m2]
    by (simp add: partial_sum_def blocks_1024_2 Let_def)
  then have "fst (partial_sum 2 [(0, 0), (1, 1)] [(0, 0), (1, 1)] racy memF 0 1024 1024) 1537 =
        m2 1537 + exclusive_scan 0 [m1 1535, m2 2047] ! 1"
    by (simp add: block_offset_def)
  then show ?thesis
    by (simp only: m2_1537 bp minifloat_plus) (simp add: trunc8_258)
qed


lemma unclobbered_shifted_back: "reads_unclobbered (Suc d) d n"
  by (auto simp: reads_unclobbered_def)

lemma serial_overlap:
  "fst (std_partial_sum memO 1 1025 0) 511 = 512"
proof -
  have u: "reads_unclobbered 1 0 (1025 - 1)"
    using unclobbered_shifted_back [of 0] by simp
  have "std_partial_sum memO 1 1025 0 = (prefix_written memO 1 0 (1025 - 1), 0 + (1025 - 1))"
    by (rule std_partial_sum_prefix [OF _ u]) simp
  then have "fst (std_partial_sum memO 1 1025 0) 511 = prefix_written memO 1 0 1024 511"
    by simp
  also have "\<dots> = (\<Sum>j = 0..<Suc (511 - 0). memO (1 + j))"
    by (rule prefix_written_inside) simp_all
  also have "\<dots> = (\<Sum>j = 0..<512. memO (1 + j))"
    by simp
  also have "\<dots> = (\<Sum>j = 0..<(512::nat). 1::nat)"
    by (rule sum.cong) (auto simp: memO_def)
  also have "\<dots> = 512" by simp
  finally show ?thesis .
qed

lemma parallel_overlap:
  "fst (partial_sum 2 [(1, 1), (0, 0)] [(0, 0), (1, 1)] racy memO 1 1025 0) 511 = 611"
proof -
  define m1 where "m1 = fst (std_partial_sum memO 513 1025 512)"
  define m2 where "m2 = fst (std_partial_sum m1 1 513 0)"
  have u1: "reads_unclobbered 513 512 (1025 - 513)"
    using unclobbered_shifted_back [of 512] by simp
  have "std_partial_sum memO 513 1025 512 =
        (prefix_written memO 513 512 (1025 - 513), 512 + (1025 - 513))"
    by (rule std_partial_sum_prefix [OF _ u1]) simp
  then have m1: "m1 = prefix_written memO 513 512 512"
    by (simp add: m1_def)
  have u2: "reads_unclobbered 1 0 (513 - 1)"
    using unclobbered_shifted_back [of 0] by simp
  have "std_partial_sum m1 1 513 0 = (prefix_written m1 1 0 (513 - 1), 0 + (513 - 1))"
    by (rule std_partial_sum_prefix [OF _ u2]) simp
  then have m2: "m2 = prefix_written m1 1 0 512"
    by (simp add: m2_def)
  have low: "m1 (1 + j) = 1" if "j < 511" for j
  proof -
    have "prefix_written memO 513 512 512 (1 + j) = memO (1 + j)"
      using that by (intro prefix_written_outside) simp
    then show ?thesis using that by (simp add: m1 memO_def)
  qed
  have "prefix_written memO 513 512 512 512 = (\<Sum>i = 0..<Suc (512 - 512). memO (513 + i))"
    by (rule prefix_written_inside) simp_all
  then have m1_512: "m1 512 = 100"
    by (simp add: m1 memO_def)
  have "m2 511 = (\<Sum>j = 0..<Suc (511 - 0). m1 (1 + j))"
    unfolding m2 by (rule prefix_written_inside) simp_all
  also have "\<dots> = (\<Sum>j = 0..<Suc 511. m1 (1 + j))"
    by simp
  also have "\<dots> = (\<Sum>j = 0..<511. m1 (1 + j)) + m1 (1 + 511)"
    by (rule sum.atLeast0_lessThan_Suc)
  also have "(\<Sum>j = 0..<511. m1 (1 + j)) = (\<Sum>j = 0..<(511::nat). 1::nat)"
    using low by (intro sum.cong) auto
  finally have m2_511: "m2 511 = 611"
    by (simp add: m1_512)
  have s1: "block_sums 1024 512 1 0 racy 1 (memO, [0, 0]) = (m1, [0, m1 1023])"
    by (simp add: block_sums_def blocks_1024_2 m1_def Let_def)
  have s0: "block_sums 1024 512 1 0 racy 0 (m1, [0, m1 1023]) = (m2, [m2 511, m1 1023])"
    by (simp add: block_sums_def blocks_1024_2 m2_def Let_def)
  have p1: "do_all [(1, 1), (0, 0)] (\<lambda>tid. block_sums 1024 512 1 0 racy) (memO, replicate 2 0) =
            (m2, [m2 511, m1 1023])"
    using s0 s1 by (simp add: do_all_def numeral_2_eq_2)
  have "partial_sum 2 [(1, 1), (0, 0)] [(0, 0), (1, 1)] racy memO 1 1025 0 =
        (block_offset m2 0 1024 512 (exclusive_scan 0 [m2 511, m1 1023]) {0, 1}, 0 + 1024)"
    using p1 second_pass_two_blocks [of 0 "exclusive_scan 0 [m2 511, m1 1023]" m2]
    by (simp add: partial_sum_def blocks_1024_2 Let_def)
  then have "fst (partial_sum 2 [(1, 1), (0, 0)] [(0, 0), (1, 1)] racy memO 1 1025 0) 511 =
        m2 511 + exclusive_scan 0 [m2 511, m1 1023] ! 0"
    by (simp add: block_offset_def)
  then show ?thesis
    by (simp add: m2_511)
qed

text \<open>
  C9 (as stated) fails, in two ways. For a floating-point value type: on the 1024
  \<open>minifloat\<close> inputs \<open>256, 1, 1, ...\<close> and two threads, the serial algorithm writes 256 at
  index 513 (\<open>256 + 1\<close> rounds to 256 every time), the parallel one writes \<open>(1 + 1) + 256 =
  258\<close>. For an output that overlaps the input: with \<open>d_first = first - 1\<close>, naturals and
  two threads, when the second block runs first it overwrites the last input of the
  first block, and the parallel algorithm writes 611 at index 511 where the serial one
  writes 512.
\<close>

theorem partial_sum_counterexample:
  "valid_do_all 2 2 [(0, 0), (1, 1)] \<and> valid_do_all 2 2 [(1, 1), (0, 0)] \<and>
   (Minifloat 256 + Minifloat 1) + Minifloat 1 \<noteq> Minifloat 256 + (Minifloat 1 + Minifloat 1) \<and>
   fst (partial_sum 2 [(0, 0), (1, 1)] [(0, 0), (1, 1)] (\<lambda>b. 0)
          (\<lambda>a. if a = 0 then Minifloat 256 else Minifloat 1) 0 1024 1024) 1537 = Minifloat 258 \<and>
   fst (std_partial_sum (\<lambda>a. if a = 0 then Minifloat 256 else Minifloat 1) 0 1024 1024) 1537 =
     Minifloat 256 \<and>
   \<not> no_overlap 1 0 (1025 - 1) \<and>
   fst (partial_sum 2 [(1, 1), (0, 0)] [(0, 0), (1, 1)] (\<lambda>b. 0)
          (\<lambda>a. if a = 513 then 100 else 1 :: nat) 1 1025 0) 511 = 611 \<and>
   fst (std_partial_sum (\<lambda>a. if a = 513 then 100 else 1 :: nat) 1 1025 0) 511 = 512"
proof -
  have v1: "valid_do_all 2 2 [(0, 0), (1, 1)]" and v2: "valid_do_all 2 2 [(1, 1), (0, 0)]"
    by (simp_all add: valid_do_all_def upt_2_numeral del: mset_upt)
  have f1: "fst (partial_sum 2 [(0, 0), (1, 1)] [(0, 0), (1, 1)] (\<lambda>b. 0)
          (\<lambda>a. if a = 0 then Minifloat 256 else Minifloat 1) 0 1024 1024) 1537 = Minifloat 258"
    using parallel_minifloat [of "\<lambda>b. 0"] by (simp only: memF_def)
  have f2: "fst (std_partial_sum (\<lambda>a. if a = 0 then Minifloat 256 else Minifloat 1) 0 1024 1024)
          1537 = Minifloat 256"
    using serial_minifloat by (simp only: memF_def)
  have n: "\<not> no_overlap 1 0 (1025 - 1)"
  proof
    assume a: "no_overlap 1 0 (1025 - 1)"
    have "(1::nat) + 0 = 0 + 1 \<longrightarrow> (0::nat) = 1"
      using a [unfolded no_overlap_def, rule_format, of 0 1] by simp
    then show False by simp
  qed
  have o1: "fst (partial_sum 2 [(1, 1), (0, 0)] [(0, 0), (1, 1)] (\<lambda>b. 0)
          (\<lambda>a. if a = 513 then 100 else 1 :: nat) 1 1025 0) 511 = 611"
    using parallel_overlap [of "\<lambda>b. 0"] by (simp only: memO_def)
  have o2: "fst (std_partial_sum (\<lambda>a. if a = 513 then 100 else 1 :: nat) 1 1025 0) 511 = 512"
    using serial_overlap by (simp only: memO_def)
  from v1 v2 minifloat_not_associative f1 f2 n o1 o2 show ?thesis by blast
qed

section \<open>Results: \<open>partition\<close>\<close>

lemma scan_true_skip:
  assumes "0 \<le> a" and "b \<le> last1" and "b \<le> int (length xs)"
    and "\<forall>i. a \<le> i \<and> i < b \<longrightarrow> pred (xs ! nat i)"
  shows "a \<le> b \<Longrightarrow> scan_true pred xs a last1 = scan_true pred xs b last1"
  using assms
proof (induction "nat (b - a)" arbitrary: a)
  case 0
  then have "a = b" by simp
  then show ?case by simp
next
  case (Suc n)
  have ab: "a < b" using Suc.hyps(2) by linarith
  have "scan_true pred xs a last1 = scan_true pred xs (a + 1) last1"
    using ab Suc.prems by (subst scan_true.simps) auto
  also have "\<dots> = scan_true pred xs b last1"
    using Suc.hyps(2) Suc.prems ab by (intro Suc.hyps(1)) auto
  finally show ?case .
qed

lemma scan_false_skip:
  assumes "first2 \<le> b" and "0 \<le> b" and "a \<le> int (length xs)"
    and "\<forall>i. b \<le> i \<and> i < a \<longrightarrow> \<not> pred (xs ! nat i)"
  shows "b \<le> a \<Longrightarrow> scan_false pred xs a first2 = scan_false pred xs b first2"
  using assms
proof (induction "nat (a - b)" arbitrary: a)
  case 0
  then have "a = b" by simp
  then show ?case by simp
next
  case (Suc n)
  have ab: "b < a" using Suc.hyps(2) by linarith
  have "scan_false pred xs a first2 = scan_false pred xs (a - 1) first2"
    using ab Suc.prems by (subst scan_false.simps) auto
  also have "\<dots> = scan_false pred xs b first2"
    using Suc.hyps(2) Suc.prems ab by (intro Suc.hyps(1)) auto
  finally show ?case .
qed



lemma xs0_length: "length xs0 = 1025"
  by (simp add: xs0_def)

lemma xs0_true: "0 \<le> i \<Longrightarrow> i < 1023 \<Longrightarrow> xs0 ! nat i"
  by (simp add: xs0_def nth_append)

lemma xs0_1023: "\<not> xs0 ! nat 1023"
  by (simp add: xs0_def nth_append)

lemma xs0_1024: "xs0 ! nat 1024"
  by (simp add: xs0_def nth_append)

lemma dual_partition_empty:
  "dual_partition xs 0 0 0 0 pred = Inr (xs, (0, 0))"
  unfolding dual_partition_def
  by (subst dual_partition_loop.simps, subst scan_true.simps) simp

lemma dual_partition_xs0:
  "dual_partition xs0 0 1024 1024 1025 (\<lambda>x. x) = Inr (swap xs0 1023 1024, (1024, 1024))"
proof -
  have "scan_true (\<lambda>x. x) xs0 0 1024 = scan_true (\<lambda>x. x) xs0 1023 1024"
    by (rule scan_true_skip) (simp_all add: xs0_length xs0_true)
  also have "\<dots> = Inr 1023"
    using xs0_1023 by (subst scan_true.simps) (simp add: xs0_length)
  finally have st: "scan_true (\<lambda>x. x) xs0 0 1024 = Inr 1023" .
  have sf: "scan_false (\<lambda>x. x) xs0 1025 1024 = Inr 1025"
    using xs0_1024 by (subst scan_false.simps) (simp add: xs0_length)
  have st2: "scan_true (\<lambda>x. x) (swap xs0 1023 1024) 1024 1024 = Inr 1024"
    by (subst scan_true.simps) simp
  have l2: "dual_partition_loop (\<lambda>x. x) (swap xs0 1023 1024) 1024 1024 1024 1024 =
            Inr (swap xs0 1023 1024, 1024, 1024)"
    by (subst dual_partition_loop.simps) (simp add: st2)
  have "dual_partition_loop (\<lambda>x. x) xs0 0 1024 1024 1025 =
        Inr (swap xs0 1023 1024, 1024, 1024)"
    by (subst dual_partition_loop.simps) (simp add: st sf l2)
  then show ?thesis by (simp add: dual_partition_def)
qed


lemma on_each_xs0:
  "on_each (\<lambda>x. x) 1 [0, 0, 0, 0, 0, 0, 0] xs0 (init_state 0 1025) =
   Inr (swap xs0 1023 1024,
        \<lparr>first = 1024, last' = 1024, rfirst = 1025, rlast = 0, Lock = False, unguarded = False\<rparr>)"
  by (simp add: on_each_def worker_step_def dual_partition_empty dual_partition_xs0
      takeLow_def takeHigh_def update_state_def update_bounds_def lock_def unlock_def shared_def
      to_unsigned_def BlockSize_def init_state_def Let_def)

lemma parallel_partition_xs0:
  "parallel_partition 1 [0, 0, 0, 0, 0, 0, 0] xs0 0 1025 (\<lambda>x. x) = Inl UndefinedBehaviour"
proof -
  have "parallel_partition 1 [0, 0, 0, 0, 0, 0, 0] xs0 0 1025 (\<lambda>x. x) =
        std_partition (swap xs0 1023 1024) 1025 0 (\<lambda>x. x)"
    using on_each_xs0 by (simp add: parallel_partition_def)
  also have "\<dots> = Inl UndefinedBehaviour"
    by (simp add: std_partition_def)
  finally show ?thesis .
qed



lemma xs2_length: "length xs2 = 4096"
  by (simp add: xs2_def)

lemma xs2_low: "0 \<le> i \<Longrightarrow> i < 1024 \<Longrightarrow> \<not> xs2 ! nat i"
  by (simp add: xs2_def nth_append)

lemma xs2_mid: "1024 \<le> i \<Longrightarrow> i < 2048 \<Longrightarrow> xs2 ! nat i"
  by (auto simp: xs2_def nth_append)

lemma xs2_high: "2048 \<le> i \<Longrightarrow> i < 4096 \<Longrightarrow> \<not> xs2 ! nat i"
  by (auto simp: xs2_def nth_append)

lemma dual_partition_xs2_A:
  "dual_partition xs2 0 1024 2048 3072 (\<lambda>x. x) = Inr (xs2, (0, 2048))"
proof -
  have st: "scan_true (\<lambda>x. x) xs2 0 1024 = Inr 0"
    using xs2_low [of 0] by (subst scan_true.simps) (simp add: xs2_length)
  have "scan_false (\<lambda>x. x) xs2 3072 2048 = scan_false (\<lambda>x. x) xs2 2048 2048"
    by (rule scan_false_skip) (simp_all add: xs2_length xs2_high)
  also have "\<dots> = Inr 2048"
    by (subst scan_false.simps) simp
  finally have sf: "scan_false (\<lambda>x. x) xs2 3072 2048 = Inr 2048" .
  have "dual_partition_loop (\<lambda>x. x) xs2 0 1024 2048 3072 = Inr (xs2, 0, 2048)"
    by (subst dual_partition_loop.simps) (simp add: st sf)
  then show ?thesis by (simp add: dual_partition_def)
qed

lemma dual_partition_xs2_B:
  "dual_partition xs2 1024 2048 3072 4096 (\<lambda>x. x) = Inr (xs2, (2048, 4096))"
proof -
  have "scan_true (\<lambda>x. x) xs2 1024 2048 = scan_true (\<lambda>x. x) xs2 2048 2048"
    by (rule scan_true_skip) (simp_all add: xs2_length xs2_mid)
  also have "\<dots> = Inr 2048"
    by (subst scan_true.simps) simp
  finally have st: "scan_true (\<lambda>x. x) xs2 1024 2048 = Inr 2048" .
  have "dual_partition_loop (\<lambda>x. x) xs2 1024 2048 3072 4096 = Inr (xs2, 2048, 4096)"
    by (subst dual_partition_loop.simps) (simp add: st)
  then show ?thesis by (simp add: dual_partition_def)
qed

lemma replicate_2: "replicate 2 w = [w, w]"
  by (simp add: numeral_2_eq_2)

lemma on_each_xs2:
  "on_each (\<lambda>x. x) 2 [0, 1, 0, 1, 1, 0, 0, 0, 0, 0, 1, 1, 1, 1] xs2 (init_state 0 4096) =
   Inr (xs2,
        \<lparr>first = 2048, last' = 2048, rfirst = 0, rlast = 4096, Lock = False, unguarded = False\<rparr>)"
  by (simp add: on_each_def worker_step_def dual_partition_empty dual_partition_xs2_A
      dual_partition_xs2_B replicate_2
      takeLow_def takeHigh_def update_state_def update_bounds_def lock_def unlock_def shared_def
      to_unsigned_def BlockSize_def init_state_def Let_def)

lemma parallel_partition_xs2:
  "parallel_partition 2 [0, 1, 0, 1, 1, 0, 0, 0, 0, 0, 1, 1, 1, 1] xs2 0 4096 (\<lambda>x. x) =
   Inr (xs2, 2048)"
  using on_each_xs2 by (simp add: parallel_partition_def)

text \<open>
  C8 (code as written). With one thread and 1025 elements, the only execution swaps
  one pair and leaves every block exhausted: no leftover is recorded, \<open>rfirst\<close> and \<open>rlast\<close>
  keep their initial values \<open>last\<close> and \<open>first\<close>, the test for a perfect partition
  (\<open>rfirst = first\<close> and \<open>rlast = last\<close>) fails, and \<open>std::partition\<close> is called on the range
  from \<open>last\<close> to \<open>first\<close>, which is not a valid range. With two threads and 4096
  elements there is an execution in which the leftovers of the two workers span the
  whole range: the same test succeeds, and the call returns position 2048 over the
  unchanged sequence, whose element 0 does not satisfy the predicate.
\<close>

theorem parallel_partition_fails:
  "parallel_partition 1 [0, 0, 0, 0, 0, 0, 0] (replicate 1023 True @ [False, True]) 0 1025 (\<lambda>x. x) =
     Inl UndefinedBehaviour \<and>
   parallel_partition 2 [0, 1, 0, 1, 1, 0, 0, 0, 0, 0, 1, 1, 1, 1]
       (replicate 1024 False @ replicate 1024 True @ replicate 2048 False) 0 4096 (\<lambda>x. x) =
     Inr (replicate 1024 False @ replicate 1024 True @ replicate 2048 False, 2048) \<and>
   \<not> (replicate 1024 False @ replicate 1024 True @ replicate 2048 False) ! 0"
proof -
  have a: "parallel_partition 1 [0, 0, 0, 0, 0, 0, 0] (replicate 1023 True @ [False, True]) 0 1025
             (\<lambda>x. x) = Inl UndefinedBehaviour"
    using parallel_partition_xs0 by (simp only: xs0_def)
  have b: "parallel_partition 2 [0, 1, 0, 1, 1, 0, 0, 0, 0, 0, 1, 1, 1, 1]
       (replicate 1024 False @ replicate 1024 True @ replicate 2048 False) 0 4096 (\<lambda>x. x) =
     Inr (replicate 1024 False @ replicate 1024 True @ replicate 2048 False, 2048)"
    using parallel_partition_xs2 by (simp only: xs2_def)
  have c: "\<not> (replicate 1024 False @ replicate 1024 True @ replicate 2048 False) ! 0"
    by (simp add: nth_append)
  from a b c show ?thesis by blast
qed

end
